theory Spec2Isabelle
  imports Complex_Main "HOL-Library.Multiset" "HOL-Library.Sublist"
begin

section \<open>Entries, snapshots and exceptions\<close>

text \<open>
  \<^verbatim>\<open>Entry = namedtuple('Entry', 'path relative_path isfile mtime')\<close>.
  The modification time is the float that \<^verbatim>\<open>os.path.getmtime\<close> returns; the code only
  compares two of them (\<^verbatim>\<open>!=\<close>, \<^verbatim>\<open>>\<close>), and every finite float is a rational
  number, so a rational carries it exactly.
\<close>

record Entry =
  path :: string
  relative_path :: string
  isfile :: bool
  mtime :: rat

text \<open>
  A snapshot is a Python dict from relative path to Entry: keys are unique and keep
  their insertion order. \<open>dict_set\<close> is \<^verbatim>\<open>d[k] = v\<close>: it replaces the value of a
  key that is present, in place, and appends a new key at the end.
\<close>

type_synonym snapshot = "(string \<times> Entry) list"

definition keys :: "snapshot \<Rightarrow> string list" where
  "keys snap = map fst snap"

definition dict_get :: "snapshot \<Rightarrow> string \<Rightarrow> Entry option" where
  "dict_get snap k = map_of snap k"

fun dict_set :: "string \<Rightarrow> Entry \<Rightarrow> snapshot \<Rightarrow> snapshot" where
  "dict_set k v [] = [(k, v)]"
| "dict_set k v ((k', v') # rest) =
     (if k = k' then (k, v) # rest else (k', v') # dict_set k v rest)"

text \<open>
  The exceptions the code can meet: a failure of an operating-system call
  (\<^verbatim>\<open>OSError\<close> and its subclasses, with its message), a missing dict key and the
  division by zero of \<^verbatim>\<open>Reporter.step\<close>. All of them are instances of
  \<^verbatim>\<open>Exception\<close>, which is what the \<^verbatim>\<open>except Exception\<close> clauses catch.
\<close>

datatype exn = OSError string | KeyError string | ZeroDivisionError

section \<open>depth_sort\<close>

text \<open>\<^verbatim>\<open>x.count('/')\<close>: the number of separators of a path.\<close>

definition sep_count :: "string \<Rightarrow> nat" where
  "sep_count x = count_list x (CHR ''/'')"

text \<open>
  \<^verbatim>\<open>sorted(files, key=lambda x: x.count('/'), reverse=True)\<close>. Python's sort is stable,
  also with \<^verbatim>\<open>reverse=True\<close> (elements with equal keys keep their order), which is a
  stable ascending sort on the negated key.
\<close>

definition depth_sort :: "string list \<Rightarrow> string list" where
  "depth_sort files = sort_key (\<lambda>x. - int (sep_count x)) files"

text \<open>
  \<open>ancestor a p\<close>: \<open>a\<close> followed by a separator is a prefix of \<open>p\<close>, so \<open>a\<close> names a
  directory above \<open>p\<close>.
\<close>

definition ancestor :: "string \<Rightarrow> string \<Rightarrow> bool" where
  "ancestor a p = prefix (a @ ''/'') p"

section \<open>diff\<close>

record diff_result =
  left_only :: "string list"
  right_only :: "string list"
  changed :: "string list"
  common :: "string list"

definition empty_diff :: diff_result where
  "empty_diff = \<lparr>left_only = [], right_only = [], changed = [], common = []\<rparr>"

text \<open>
  One pass of the loop body of \<^verbatim>\<open>diff\<close> for the key \<open>k\<close>. The third branch reads
  \<^verbatim>\<open>next_snapshot[path]\<close> and then \<^verbatim>\<open>prev_snapshot[path]\<close>, which raise KeyError for
  a key in neither dict. A key of both snapshots whose mtimes differ is appended to
  \<open>changed\<close> when the entry of \<open>next_snapshot\<close> is a file, and to no list otherwise
  (the inner \<^verbatim>\<open>if\<close> has no \<^verbatim>\<open>else\<close>).
\<close>

definition diff_step :: "snapshot \<Rightarrow> snapshot \<Rightarrow> string \<Rightarrow> diff_result \<Rightarrow> exn + diff_result" where
  "diff_step prev_snapshot next_snapshot k d =
     (if dict_get prev_snapshot k \<noteq> None \<and> dict_get next_snapshot k = None
        then Inr (d\<lparr>left_only := left_only d @ [k]\<rparr>)
      else if dict_get prev_snapshot k = None \<and> dict_get next_snapshot k \<noteq> None
        then Inr (d\<lparr>right_only := right_only d @ [k]\<rparr>)
      else (case dict_get next_snapshot k of
              None \<Rightarrow> Inl (KeyError k)
            | Some n \<Rightarrow>
               (case dict_get prev_snapshot k of
                  None \<Rightarrow> Inl (KeyError k)
                | Some p \<Rightarrow>
                   if mtime n \<noteq> mtime p
                     then (if isfile n then Inr (d\<lparr>changed := changed d @ [k]\<rparr>) else Inr d)
                   else Inr (d\<lparr>common := common d @ [k]\<rparr>))))"

fun diff_loop :: "snapshot \<Rightarrow> snapshot \<Rightarrow> string list \<Rightarrow> diff_result \<Rightarrow> exn + diff_result" where
  "diff_loop prev_snapshot next_snapshot [] d = Inr d"
| "diff_loop prev_snapshot next_snapshot (k # ks) d =
     (case diff_step prev_snapshot next_snapshot k d of
        Inl e \<Rightarrow> Inl e
      | Inr d' \<Rightarrow> diff_loop prev_snapshot next_snapshot ks d')"

text \<open>
  \<^verbatim>\<open>for path in set(prev_snapshot.keys()) | set(next_snapshot.keys())\<close>: a Python set
  yields its members once each, in an order that depends on the hashes of the strings
  (randomised per process). \<open>iter\<close> is that order: it is given the members and
  returns them in the order of iteration. \<open>set_iter_ok\<close> is all that Python promises
  about it.
\<close>

definition set_iter_ok :: "(string list \<Rightarrow> string list) \<Rightarrow> bool" where
  "set_iter_ok iter = (\<forall>ks. distinct (iter ks) \<and> set (iter ks) = set ks)"

definition diff :: "(string list \<Rightarrow> string list) \<Rightarrow> snapshot \<Rightarrow> snapshot \<Rightarrow> exn + diff_result" where
  "diff iter prev_snapshot next_snapshot =
     diff_loop prev_snapshot next_snapshot
       (iter (keys prev_snapshot @ keys next_snapshot)) empty_diff"

text \<open>
  The four ways the loop body can classify a key, spelled out on the two lookups; they
  are used to describe the lists that \<open>diff\<close> builds.
\<close>

definition cls_left :: "snapshot \<Rightarrow> snapshot \<Rightarrow> string \<Rightarrow> bool" where
  "cls_left A B k = (dict_get A k \<noteq> None \<and> dict_get B k = None)"

definition cls_right :: "snapshot \<Rightarrow> snapshot \<Rightarrow> string \<Rightarrow> bool" where
  "cls_right A B k = (dict_get A k = None \<and> dict_get B k \<noteq> None)"

definition cls_changed :: "snapshot \<Rightarrow> snapshot \<Rightarrow> string \<Rightarrow> bool" where
  "cls_changed A B k = (case (dict_get A k, dict_get B k) of
      (Some p, Some n) \<Rightarrow> mtime n \<noteq> mtime p \<and> isfile n | _ \<Rightarrow> False)"

definition cls_common :: "snapshot \<Rightarrow> snapshot \<Rightarrow> string \<Rightarrow> bool" where
  "cls_common A B k = (case (dict_get A k, dict_get B k) of
      (Some p, Some n) \<Rightarrow> mtime n = mtime p | _ \<Rightarrow> False)"

section \<open>Example snapshots\<close>

text \<open>
  Two directory trees that hold nothing but their root, whose mtimes differ
  (\<open>A0\<close>, \<open>B0\<close>); two trees with a subdirectory \<open>assets\<close> touched at different times
  (\<open>A1\<close>, \<open>B1\<close>); and two trees that share one file (\<open>A2\<close>, \<open>B2\<close>).
\<close>

definition A0 :: snapshot where
  "A0 = [(''.'', \<lparr>path = ''/s'', relative_path = ''.'', isfile = False, mtime = 1\<rparr>)]"

definition B0 :: snapshot where
  "B0 = [(''.'', \<lparr>path = ''/d'', relative_path = ''.'', isfile = False, mtime = 2\<rparr>)]"

definition A1 :: snapshot where
  "A1 = [(''.'', \<lparr>path = ''/s'', relative_path = ''.'', isfile = False, mtime = 5\<rparr>),
         (''assets'', \<lparr>path = ''/s/assets'', relative_path = ''assets'', isfile = False, mtime = 10\<rparr>)]"

definition B1 :: snapshot where
  "B1 = [(''.'', \<lparr>path = ''/d'', relative_path = ''.'', isfile = False, mtime = 5\<rparr>),
         (''assets'', \<lparr>path = ''/d/assets'', relative_path = ''assets'', isfile = False, mtime = 20\<rparr>)]"

definition A2 :: snapshot where
  "A2 = [(''.'', \<lparr>path = ''/s'', relative_path = ''.'', isfile = False, mtime = 5\<rparr>),
         (''a.txt'', \<lparr>path = ''/s/a.txt'', relative_path = ''a.txt'', isfile = True, mtime = 100\<rparr>),
         (''b.txt'', \<lparr>path = ''/s/b.txt'', relative_path = ''b.txt'', isfile = True, mtime = 7\<rparr>)]"

definition B2 :: snapshot where
  "B2 = [(''.'', \<lparr>path = ''/d'', relative_path = ''.'', isfile = False, mtime = 5\<rparr>),
         (''b.txt'', \<lparr>path = ''/d/b.txt'', relative_path = ''b.txt'', isfile = True, mtime = 7\<rparr>),
         (''c.txt'', \<lparr>path = ''/d/c.txt'', relative_path = ''c.txt'', isfile = True, mtime = 9\<rparr>)]"

section \<open>The operating system\<close>

text \<open>
  The code reaches the file system through \<^verbatim>\<open>os\<close>, \<^verbatim>\<open>os.path\<close> and \<^verbatim>\<open>shutil\<close>. Their
  behaviour is a parameter of the model: a record of the functions the code calls,
  over a type \<open>'fs\<close> of file-system states. A call that changes the file system
  returns the new state together with the message of the \<^verbatim>\<open>OSError\<close> it raised, if
  any (a failed call may still have changed something); a call that only reads
  returns its value or the message. The path functions are string functions.

  \<^verbatim>\<open>os.walk(top)\<close> visits a directory, then each of its subdirectories in turn, and
  lets the caller prune the subdirectories of the directory just visited.
  \<open>Walk root_dir files subs\<close> is one visit: the directory, its file names and the visits of its
  subdirectories that follow unless the caller prunes them. A directory that cannot
  be listed is not visited at all, so \<open>os_walk\<close> returns a list of visits: none, or
  the visit of \<open>top\<close>.
\<close>

datatype walk = Walk string "string list" "walk list"

record 'fs os_api =
  os_path_join :: "string list \<Rightarrow> string"
  os_path_normpath :: "string \<Rightarrow> string"
  os_path_relpath :: "string \<Rightarrow> string \<Rightarrow> string"
  os_path_abspath :: "string \<Rightarrow> string"
  os_path_basename :: "string \<Rightarrow> string"
  os_path_dirname :: "string \<Rightarrow> string"
  os_path_isfile :: "'fs \<Rightarrow> string \<Rightarrow> bool"
  os_path_isdir :: "'fs \<Rightarrow> string \<Rightarrow> bool"
  os_path_getmtime :: "'fs \<Rightarrow> string \<Rightarrow> string + rat"
  os_walk :: "'fs \<Rightarrow> string \<Rightarrow> walk list"
  os_listdir :: "'fs \<Rightarrow> string \<Rightarrow> string + string list"
  os_remove :: "string \<Rightarrow> 'fs \<Rightarrow> string option \<times> 'fs"
  os_rmdir :: "string \<Rightarrow> 'fs \<Rightarrow> string option \<times> 'fs"
  os_makedirs :: "string \<Rightarrow> 'fs \<Rightarrow> string option \<times> 'fs"
  shutil_copy2 :: "string \<Rightarrow> string \<Rightarrow> 'fs \<Rightarrow> string option \<times> 'fs"
  set_iter :: "string list \<Rightarrow> string list"

text \<open>
  The world the file operations act on: the file system and the console, which
  receives the exceptions that \<^verbatim>\<open>print(e)\<close> writes.
\<close>

record 'fs world =
  fs :: 'fs
  printed :: "exn list"

section \<open>Programs that may raise\<close>

text \<open>
  A statement takes a state and ends with a value or with a raised exception, and in
  both cases with a new state: what was done before the exception stays done.
\<close>

type_synonym ('a, 's) prog = "'s \<Rightarrow> (exn + 'a) \<times> 's"

definition p_return :: "'a \<Rightarrow> ('a, 's) prog" where
  "p_return x s = (Inr x, s)"

definition p_raise :: "exn \<Rightarrow> ('a, 's) prog" where
  "p_raise e s = (Inl e, s)"

definition p_bind :: "('a, 's) prog \<Rightarrow> ('a \<Rightarrow> ('b, 's) prog) \<Rightarrow> ('b, 's) prog" where
  "p_bind m f s = (case m s of (Inl e, s') \<Rightarrow> (Inl e, s') | (Inr x, s') \<Rightarrow> f x s')"

text \<open>\<^verbatim>\<open>try: m  except Exception as e: h(e)\<close>\<close>

definition try_except :: "('a, 's) prog \<Rightarrow> (exn \<Rightarrow> ('a, 's) prog) \<Rightarrow> ('a, 's) prog" where
  "try_except m h s = (case m s of (Inl e, s') \<Rightarrow> h e s' | (Inr x, s') \<Rightarrow> (Inr x, s'))"

text \<open>\<^verbatim>\<open>for k in ks: body(k)\<close>; an exception of the body leaves the loop.\<close>

fun for_each :: "('k \<Rightarrow> (unit, 's) prog) \<Rightarrow> 'k list \<Rightarrow> (unit, 's) prog" where
  "for_each body [] s = (Inr (), s)"
| "for_each body (k # ks) s =
     (case body k s of (Inl e, s') \<Rightarrow> (Inl e, s') | (Inr u, s') \<Rightarrow> for_each body ks s')"

text \<open>A pure computation that may raise, run without touching the state.\<close>

definition p_lift :: "exn + 'a \<Rightarrow> ('a, 's) prog" where
  "p_lift r s = (r, s)"

text \<open>Calls into the operating system, as statements on the world.\<close>

definition os_call :: "('fs \<Rightarrow> string option \<times> 'fs) \<Rightarrow> (unit, 'fs world) prog" where
  "os_call f w =
     (case f (fs w) of
        (None, fs') \<Rightarrow> (Inr (), w\<lparr>fs := fs'\<rparr>)
      | (Some msg, fs') \<Rightarrow> (Inl (OSError msg), w\<lparr>fs := fs'\<rparr>))"

definition os_read :: "('fs \<Rightarrow> string + 'a) \<Rightarrow> ('a, 'fs world) prog" where
  "os_read f w = (case f (fs w) of Inl msg \<Rightarrow> (Inl (OSError msg), w) | Inr x \<Rightarrow> (Inr x, w))"

definition print_exn :: "exn \<Rightarrow> (unit, 'fs world) prog" where
  "print_exn e w = (Inr (), w\<lparr>printed := printed w @ [e]\<rparr>)"

section \<open>Paths\<close>

text \<open>\<^verbatim>\<open>s.replace('\\', '/')\<close>; the backslash is character 0x5C.\<close>

definition replace_backslash :: "string \<Rightarrow> string" where
  "replace_backslash s = map (\<lambda>c. if c = CHR 0x5C then CHR ''/'' else c) s"

definition normalize :: "'fs os_api \<Rightarrow> string list \<Rightarrow> string" where
  "normalize api parts = replace_backslash (os_path_normpath api (os_path_join api parts))"

definition relative :: "'fs os_api \<Rightarrow> string \<Rightarrow> string \<Rightarrow> string" where
  "relative api p start = replace_backslash (os_path_relpath api p start)"

section \<open>File operations\<close>

definition remove_file :: "'fs os_api \<Rightarrow> string \<Rightarrow> (unit, 'fs world) prog" where
  "remove_file api p = try_except (os_call (os_remove api p)) print_exn"

text \<open>\<^verbatim>\<open>if not os.listdir(path): os.rmdir(path)\<close>, all of it inside the \<^verbatim>\<open>try\<close>.\<close>

definition remove_folder :: "'fs os_api \<Rightarrow> string \<Rightarrow> (unit, 'fs world) prog" where
  "remove_folder api p =
     try_except
       (p_bind (os_read (\<lambda>f. os_listdir api f p))
          (\<lambda>names. if names = [] then os_call (os_rmdir api p) else p_return ()))
       print_exn"

text \<open>The test \<^verbatim>\<open>os.path.isdir(path)\<close> is outside the \<^verbatim>\<open>try\<close>; it does not raise.\<close>

definition create_folder :: "'fs os_api \<Rightarrow> string \<Rightarrow> (unit, 'fs world) prog" where
  "create_folder api p w =
     (if \<not> os_path_isdir api (fs w) p
        then try_except (os_call (os_makedirs api p)) print_exn w
      else p_return () w)"

definition copy_file :: "'fs os_api \<Rightarrow> string \<Rightarrow> string \<Rightarrow> (unit, 'fs world) prog" where
  "copy_file api src dst =
     p_bind (create_folder api (os_path_dirname api dst))
       (\<lambda>u. os_call (shutil_copy2 api src dst))"

section \<open>take\<close>

text \<open>\<^verbatim>\<open>len(path.split('/'))\<close>: one more than the number of separators.\<close>

definition split_len :: "string \<Rightarrow> int" where
  "split_len p = int (sep_count p) + 1"

text \<open>The inner loop \<^verbatim>\<open>for f in files\<close> of \<^verbatim>\<open>take\<close>.\<close>

fun take_files :: "'fs os_api \<Rightarrow> 'fs \<Rightarrow> string \<Rightarrow> string \<Rightarrow> string list \<Rightarrow> snapshot \<Rightarrow> exn + snapshot" where
  "take_files api f base_root root_dir [] snap = Inr snap"
| "take_files api f base_root root_dir (fl # fls) snap =
     (let p = normalize api [root_dir, fl];
          rel = relative api p base_root
      in case os_path_getmtime api f p of
           Inl msg \<Rightarrow> Inl (OSError msg)
         | Inr m \<Rightarrow>
             take_files api f base_root root_dir fls
               (dict_set rel \<lparr>path = p, relative_path = rel, isfile = True, mtime = m\<rparr> snap))"

text \<open>
  The loop \<^verbatim>\<open>for root, subdirs, files in os.walk(folder_or_file)\<close>: one visit, then the
  visits of the subdirectories unless \<^verbatim>\<open>subdirs[:] = []\<close> pruned them.
\<close>

fun take_walk :: "'fs os_api \<Rightarrow> 'fs \<Rightarrow> string \<Rightarrow> int \<Rightarrow> int \<Rightarrow> walk \<Rightarrow> snapshot \<Rightarrow> exn + snapshot"
  and take_walks :: "'fs os_api \<Rightarrow> 'fs \<Rightarrow> string \<Rightarrow> int \<Rightarrow> int \<Rightarrow> walk list \<Rightarrow> snapshot \<Rightarrow> exn + snapshot" where
  "take_walk api f base_root base_depth depth (Walk root_dir files subs) snap =
     (let p = normalize api [root_dir];
          rel = relative api p base_root
      in case os_path_getmtime api f p of
           Inl msg \<Rightarrow> Inl (OSError msg)
         | Inr m \<Rightarrow>
            (case take_files api f base_root root_dir files
                    (dict_set rel \<lparr>path = p, relative_path = rel, isfile = False, mtime = m\<rparr> snap) of
               Inl e \<Rightarrow> Inl e
             | Inr snap' \<Rightarrow>
                 if depth > -1 \<and> split_len p - base_depth = depth then Inr snap'
                 else take_walks api f base_root base_depth depth subs snap'))"
| "take_walks api f base_root base_depth depth [] snap = Inr snap"
| "take_walks api f base_root base_depth depth (t # ts) snap =
     (case take_walk api f base_root base_depth depth t snap of
        Inl e \<Rightarrow> Inl e
      | Inr snap' \<Rightarrow> take_walks api f base_root base_depth depth ts snap')"

definition take_snapshot :: "'fs os_api \<Rightarrow> 'fs \<Rightarrow> string \<Rightarrow> int \<Rightarrow> exn + snapshot" where
  "take_snapshot api f folder_or_file depth =
     (if os_path_isfile api f folder_or_file then
        (let p = normalize api [os_path_abspath api folder_or_file];
             rel = os_path_basename api p
         in case os_path_getmtime api f p of
              Inl msg \<Rightarrow> Inl (OSError msg)
            | Inr m \<Rightarrow> Inr [(rel, \<lparr>path = p, relative_path = rel, isfile = True, mtime = m\<rparr>)])
      else if \<not> os_path_isdir api f folder_or_file then Inr []
      else
        (let base_root = normalize api [folder_or_file];
             base_depth = split_len base_root
         in take_walks api f base_root base_depth depth (os_walk api f folder_or_file) []))"

text \<open>\<^verbatim>\<open>take\<close> as a statement: it reads the file system of the moment and changes nothing.\<close>

definition take_prog :: "'fs os_api \<Rightarrow> string \<Rightarrow> int \<Rightarrow> (snapshot, 'fs world) prog" where
  "take_prog api folder_or_file depth w = (take_snapshot api (fs w) folder_or_file depth, w)"

section \<open>Reporter\<close>

text \<open>
  The calls a reporter can receive. The hooks \<^verbatim>\<open>on_info\<close>, \<^verbatim>\<open>on_start\<close>, \<^verbatim>\<open>on_step\<close>
  and \<^verbatim>\<open>on_done\<close> only render a call (the base class prints it); the record keeps the
  calls received, in order, in place of their rendering.

  \<^verbatim>\<open>percent\<close> starts as the integer 0 and then holds what Python computes for
  \<^verbatim>\<open>self.amount / self.total * 100\<close>. The model does not redo that arithmetic: it
  keeps the two operands, \<open>Ratio_times_100 amount total\<close>, and the one effect the
  reconciliation can meet, the exception of a division by 0.
\<close>

datatype py_number = Int_value int | Ratio_times_100 int int

datatype call = SetTotal int | Start string | Info string | Step int string | Done string

record Reporter =
  name :: string
  total :: int
  amount :: int
  percent :: py_number
  calls :: "call list"

text \<open>\<^verbatim>\<open>Reporter(name)\<close>, with the default \<^verbatim>\<open>total=100\<close>.\<close>

definition new_Reporter :: "string \<Rightarrow> Reporter" where
  "new_Reporter nm = \<lparr>name = nm, total = 100, amount = 0, percent = Int_value 0, calls = []\<rparr>"

definition Reporter_set_total :: "int \<Rightarrow> (unit, Reporter) prog" where
  "Reporter_set_total v r = (Inr (), r\<lparr>total := v, calls := calls r @ [SetTotal v]\<rparr>)"

definition Reporter_info :: "string \<Rightarrow> (unit, Reporter) prog" where
  "Reporter_info message r = (Inr (), r\<lparr>calls := calls r @ [Info message]\<rparr>)"

definition Reporter_start :: "string \<Rightarrow> (unit, Reporter) prog" where
  "Reporter_start message r = (Inr (), r\<lparr>calls := calls r @ [Start message]\<rparr>)"

text \<open>
  \<^verbatim>\<open>self.amount += amount\<close> comes first, then the division
  \<^verbatim>\<open>self.amount / self.total * 100\<close>, which raises ZeroDivisionError when the total is 0.
\<close>

definition Reporter_step :: "int \<Rightarrow> string \<Rightarrow> (unit, Reporter) prog" where
  "Reporter_step a message r =
     (let r1 = r\<lparr>amount := amount r + a, calls := calls r @ [Step a message]\<rparr>
      in if total r1 = 0 then (Inl ZeroDivisionError, r1)
         else (Inr (), r1\<lparr>percent := Ratio_times_100 (amount r1) (total r1)\<rparr>))"

definition Reporter_done :: "string \<Rightarrow> (unit, Reporter) prog" where
  "Reporter_done message r = (Inr (), r\<lparr>calls := calls r @ [Done message]\<rparr>)"

section \<open>sync and sync_bidirectional\<close>

text \<open>
  A reconciliation runs on the world and on its reporter. \<open>on_world\<close> and
  \<open>on_reporter\<close> run a statement of one of them in the pair.
\<close>

definition on_world :: "('a, 'fs world) prog \<Rightarrow> ('a, 'fs world \<times> Reporter) prog" where
  "on_world m s = (case m (fst s) of (x, w') \<Rightarrow> (x, (w', snd s)))"

definition on_reporter :: "('a, Reporter) prog \<Rightarrow> ('a, 'fs world \<times> Reporter) prog" where
  "on_reporter m s = (case m (snd s) of (x, r') \<Rightarrow> (x, (fst s, r')))"

text \<open>\<^verbatim>\<open>str(n)\<close> for the count in \<^verbatim>\<open>'Syncing {} files.'.format(n)\<close>.\<close>

function str_nat :: "nat \<Rightarrow> string" where
  "str_nat n =
     (if n < 10 then [char_of (48 + n)] else str_nat (n div 10) @ [char_of (48 + n mod 10)])"
  by pat_completeness auto
termination
  by (relation "measure id") auto

declare str_nat.simps [simp del]

definition str_int :: "int \<Rightarrow> string" where
  "str_int i = (if i < 0 then ''-'' @ str_nat (nat (- i)) else str_nat (nat i))"

text \<open>
  Every loop of the two functions reports one step for its entry, goes on to the next
  entry when \<^verbatim>\<open>dry\<close> is set, and acts on the file system otherwise:
  \<^verbatim>\<open>reporter.step(1, message); if dry: continue; act\<close>.
\<close>

definition step_then :: "bool \<Rightarrow> string \<Rightarrow> (unit, 'fs world) prog \<Rightarrow> (unit, 'fs world \<times> Reporter) prog" where
  "step_then dry message act =
     p_bind (on_reporter (Reporter_step 1 message))
       (\<lambda>u. if dry then p_return () else on_world act)"

text \<open>
  The body of the loops that copy the entries unique to one side to the other side
  (\<^verbatim>\<open>sync\<close> has one, \<^verbatim>\<open>sync_bidirectional\<close> two): \<open>snap\<close> is the snapshot of the side
  that has the entry, \<open>target\<close> the root of the other side and \<open>label\<close> the start of
  the message, \<^verbatim>\<open>'R-> Copy '\<close> or \<^verbatim>\<open>'<-L Copy '\<close>.
\<close>

definition copy_unique :: "'fs os_api \<Rightarrow> snapshot \<Rightarrow> string \<Rightarrow> string \<Rightarrow> bool \<Rightarrow> string \<Rightarrow> (unit, 'fs world \<times> Reporter) prog" where
  "copy_unique api snap target label dry path_key =
     (case dict_get snap path_key of
        None \<Rightarrow> p_raise (KeyError path_key)
      | Some entry \<Rightarrow>
          (let target_path = normalize api [target, relative_path entry]
           in step_then dry (label @ relative_path entry)
                (if isfile entry then copy_file api (path entry) target_path
                 else create_folder api target_path)))"

text \<open>The body of the deletion loop of \<^verbatim>\<open>sync\<close>.\<close>

definition delete_unique :: "'fs os_api \<Rightarrow> snapshot \<Rightarrow> bool \<Rightarrow> string \<Rightarrow> (unit, 'fs world \<times> Reporter) prog" where
  "delete_unique api dst_snapshot dry path_key =
     (case dict_get dst_snapshot path_key of
        None \<Rightarrow> p_raise (KeyError path_key)
      | Some entry \<Rightarrow>
          step_then dry (''R-> Delete '' @ relative_path entry)
            (if isfile entry then remove_file api (path entry)
             else remove_folder api (path entry)))"

text \<open>The body of the replacement loop of \<^verbatim>\<open>sync\<close>.\<close>

definition replace_changed_entry :: "'fs os_api \<Rightarrow> snapshot \<Rightarrow> snapshot \<Rightarrow> bool \<Rightarrow> string \<Rightarrow> (unit, 'fs world \<times> Reporter) prog" where
  "replace_changed_entry api src_snapshot dst_snapshot dry path_key =
     (case dict_get src_snapshot path_key of
        None \<Rightarrow> p_raise (KeyError path_key)
      | Some src_entry \<Rightarrow>
         (case dict_get dst_snapshot path_key of
            None \<Rightarrow> p_raise (KeyError path_key)
          | Some dst_entry \<Rightarrow>
              step_then dry (''R-> Replace '' @ relative_path dst_entry)
                (if isfile src_entry then copy_file api (path src_entry) (path dst_entry)
                 else p_return ())))"

text \<open>
  The body of the replacement loop of \<^verbatim>\<open>sync_bidirectional\<close>: the source wins when
  \<^verbatim>\<open>src_entry.mtime > dst_entry.mtime\<close>, the destination in every other case.
\<close>

definition replace_newer_entry :: "'fs os_api \<Rightarrow> snapshot \<Rightarrow> snapshot \<Rightarrow> bool \<Rightarrow> string \<Rightarrow> (unit, 'fs world \<times> Reporter) prog" where
  "replace_newer_entry api src_snapshot dst_snapshot dry path_key =
     (case dict_get src_snapshot path_key of
        None \<Rightarrow> p_raise (KeyError path_key)
      | Some src_entry \<Rightarrow>
         (case dict_get dst_snapshot path_key of
            None \<Rightarrow> p_raise (KeyError path_key)
          | Some dst_entry \<Rightarrow>
              if mtime src_entry > mtime dst_entry then
                step_then dry (''R-> Replace '' @ relative_path dst_entry)
                  (if isfile src_entry then copy_file api (path src_entry) (path dst_entry)
                   else p_return ())
              else
                step_then dry (''<-L Replace '' @ relative_path src_entry)
                  (if isfile dst_entry then copy_file api (path dst_entry) (path src_entry)
                   else p_return ())))"

text \<open>\<^verbatim>\<open>reporter or Reporter('Sync')\<close>: a reporter object is never falsy.\<close>

definition reporter_or_default :: "Reporter option \<Rightarrow> Reporter" where
  "reporter_or_default reporter = (case reporter of None \<Rightarrow> new_Reporter ''Sync'' | Some r \<Rightarrow> r)"

definition sync :: "'fs os_api \<Rightarrow> string \<Rightarrow> string \<Rightarrow> bool \<Rightarrow> bool \<Rightarrow> bool \<Rightarrow> Reporter option \<Rightarrow> 'fs world \<Rightarrow> (exn + unit) \<times> 'fs world \<times> Reporter" where
  "sync api src0 dst0 replace_changed delete_files dry reporter w =
     (let src = normalize api [src0];
          dst = normalize api [dst0]
      in p_bind (on_world (take_prog api src (-1))) (\<lambda>src_snapshot.
         p_bind (on_world (take_prog api dst (-1))) (\<lambda>dst_snapshot.
         p_bind (p_lift (diff (set_iter api) src_snapshot dst_snapshot)) (\<lambda>snapshot_diff.
           (let number_of_operations =
                  int (length (left_only snapshot_diff))
                  + (if delete_files then int (length (right_only snapshot_diff)) else 0)
                  + (if replace_changed then int (length (changed snapshot_diff)) else 0)
            in p_bind (on_reporter (Reporter_set_total number_of_operations)) (\<lambda>u.
               if number_of_operations \<noteq> 0 then
                 p_bind (on_reporter (Reporter_start (src @ '' --> '' @ dst))) (\<lambda>u.
                 p_bind (on_reporter (Reporter_info
                           (''Syncing '' @ str_int number_of_operations @ '' files.''))) (\<lambda>u.
                 p_bind (for_each (copy_unique api src_snapshot dst ''R-> Copy '' dry)
                           (left_only snapshot_diff)) (\<lambda>u.
                 p_bind (if delete_files
                           then for_each (delete_unique api dst_snapshot dry)
                                  (depth_sort (right_only snapshot_diff))
                         else p_return ()) (\<lambda>u.
                 p_bind (if replace_changed
                           then for_each (replace_changed_entry api src_snapshot dst_snapshot dry)
                                  (changed snapshot_diff)
                         else p_return ()) (\<lambda>u.
                 on_reporter (Reporter_done ''Done!''))))))
               else
                 p_bind (on_reporter (Reporter_start (src @ '' --> '' @ dst))) (\<lambda>u.
                 on_reporter (Reporter_done ''Done! Nothing to sync.''))))))))
        (w, reporter_or_default reporter)"

definition sync_bidirectional :: "'fs os_api \<Rightarrow> string \<Rightarrow> string \<Rightarrow> bool \<Rightarrow> bool \<Rightarrow> Reporter option \<Rightarrow> 'fs world \<Rightarrow> (exn + unit) \<times> 'fs world \<times> Reporter" where
  "sync_bidirectional api src0 dst0 replace_changed dry reporter w =
     (let src = normalize api [src0];
          dst = normalize api [dst0]
      in p_bind (on_world (take_prog api src (-1))) (\<lambda>src_snapshot.
         p_bind (on_world (take_prog api dst (-1))) (\<lambda>dst_snapshot.
         p_bind (p_lift (diff (set_iter api) src_snapshot dst_snapshot)) (\<lambda>snapshot_diff.
           (let number_of_operations =
                  int (length (left_only snapshot_diff))
                  + int (length (right_only snapshot_diff))
                  + (if replace_changed then int (length (changed snapshot_diff)) else 0)
            in p_bind (on_reporter (Reporter_set_total number_of_operations)) (\<lambda>u.
               if number_of_operations \<noteq> 0 then
                 p_bind (on_reporter (Reporter_start (src @ '' <-> '' @ dst))) (\<lambda>u.
                 p_bind (on_reporter (Reporter_info
                           (''Syncing '' @ str_int number_of_operations @ '' files.''))) (\<lambda>u.
                 p_bind (for_each (copy_unique api src_snapshot dst ''R-> Copy '' dry)
                           (left_only snapshot_diff)) (\<lambda>u.
                 p_bind (for_each (copy_unique api dst_snapshot src ''<-L Copy '' dry)
                           (right_only snapshot_diff)) (\<lambda>u.
                 p_bind (if replace_changed
                           then for_each (replace_newer_entry api src_snapshot dst_snapshot dry)
                                  (changed snapshot_diff)
                         else p_return ()) (\<lambda>u.
                 on_reporter (Reporter_done ''Done!''))))))
               else
                 p_bind (on_reporter (Reporter_start (src @ '' <-> '' @ dst))) (\<lambda>u.
                 on_reporter (Reporter_done ''Done! Nothing to sync.''))))))))
        (w, reporter_or_default reporter)"

section \<open>The reporter after its steps\<close>

text \<open>
  \<open>stepped message r\<close> is the reporter after a call \<^verbatim>\<open>step(1, message)\<close> that
  returned, \<open>step_all\<close> after one such call for each message of a list.
  \<open>announced n cs r\<close> is the reporter after \<^verbatim>\<open>set_total(n)\<close> and the calls \<open>cs\<close>,
  none of which is a step, and \<open>finished messages r\<close> the reporter after all the steps
  and the closing \<^verbatim>\<open>done('Done!')\<close>.
\<close>

definition stepped :: "string \<Rightarrow> Reporter \<Rightarrow> Reporter" where
  "stepped message r =
     r\<lparr>amount := amount r + 1, calls := calls r @ [Step 1 message],
       percent := Ratio_times_100 (amount r + 1) (total r)\<rparr>"

definition step_all :: "string list \<Rightarrow> Reporter \<Rightarrow> Reporter" where
  "step_all messages r = foldl (\<lambda>r' m. stepped m r') r messages"

definition announced :: "int \<Rightarrow> call list \<Rightarrow> Reporter \<Rightarrow> Reporter" where
  "announced n cs r = r\<lparr>total := n, calls := calls r @ SetTotal n # cs\<rparr>"

definition finished :: "string list \<Rightarrow> Reporter \<Rightarrow> Reporter" where
  "finished messages r =
     (step_all messages r)\<lparr>calls := calls (step_all messages r) @ [Done ''Done!'']\<rparr>"

text \<open>The amounts passed to \<^verbatim>\<open>step\<close> and the values passed to \<^verbatim>\<open>set_total\<close> in a list of calls.\<close>

fun step_amounts :: "call list \<Rightarrow> int list" where
  "step_amounts [] = []"
| "step_amounts (Step a message # cs) = a # step_amounts cs"
| "step_amounts (c # cs) = step_amounts cs"

fun set_total_values :: "call list \<Rightarrow> int list" where
  "set_total_values [] = []"
| "set_total_values (SetTotal v # cs) = v # set_total_values cs"
| "set_total_values (c # cs) = set_total_values cs"

section \<open>The operations of a reconciliation\<close>

text \<open>
  Once the entries of a key are looked up, each pass of a loop of \<^verbatim>\<open>sync\<close> or
  \<^verbatim>\<open>sync_bidirectional\<close> is a message for the reporter and an action on the file
  system. \<open>copy_op\<close>, \<open>delete_op\<close>, \<open>replace_op\<close> and \<open>newer_op\<close> give that pair for
  a key of the four loop bodies; \<open>sync_ops\<close> and \<open>bidir_ops\<close> list the pairs of a whole
  call in the order of the loops, and \<open>run_ops\<close> runs such a list. They serve the
  proofs: the two functions are shown to run exactly these lists.
\<close>

type_synonym 'fs op = "string \<times> (unit, 'fs world) prog"

definition run_ops :: "bool \<Rightarrow> 'fs op list \<Rightarrow> (unit, 'fs world \<times> Reporter) prog" where
  "run_ops dry ops = for_each (\<lambda>op. step_then dry (fst op) (snd op)) ops"

definition copy_op :: "'fs os_api \<Rightarrow> snapshot \<Rightarrow> string \<Rightarrow> string \<Rightarrow> string \<Rightarrow> 'fs op" where
  "copy_op api snap target label k =
     (case dict_get snap k of
        None \<Rightarrow> (label, p_return ())
      | Some entry \<Rightarrow>
          (label @ relative_path entry,
           if isfile entry
             then copy_file api (path entry) (normalize api [target, relative_path entry])
           else create_folder api (normalize api [target, relative_path entry])))"

definition delete_op :: "'fs os_api \<Rightarrow> snapshot \<Rightarrow> string \<Rightarrow> 'fs op" where
  "delete_op api dst_snapshot k =
     (case dict_get dst_snapshot k of
        None \<Rightarrow> ([], p_return ())
      | Some entry \<Rightarrow>
          (''R-> Delete '' @ relative_path entry,
           if isfile entry then remove_file api (path entry) else remove_folder api (path entry)))"

definition replace_op :: "'fs os_api \<Rightarrow> snapshot \<Rightarrow> snapshot \<Rightarrow> string \<Rightarrow> 'fs op" where
  "replace_op api src_snapshot dst_snapshot k =
     (case (dict_get src_snapshot k, dict_get dst_snapshot k) of
        (Some src_entry, Some dst_entry) \<Rightarrow>
          (''R-> Replace '' @ relative_path dst_entry,
           if isfile src_entry then copy_file api (path src_entry) (path dst_entry)
           else p_return ())
      | _ \<Rightarrow> ([], p_return ()))"

definition newer_op :: "'fs os_api \<Rightarrow> snapshot \<Rightarrow> snapshot \<Rightarrow> string \<Rightarrow> 'fs op" where
  "newer_op api src_snapshot dst_snapshot k =
     (case (dict_get src_snapshot k, dict_get dst_snapshot k) of
        (Some src_entry, Some dst_entry) \<Rightarrow>
          if mtime src_entry > mtime dst_entry then
            (''R-> Replace '' @ relative_path dst_entry,
             if isfile src_entry then copy_file api (path src_entry) (path dst_entry)
             else p_return ())
          else
            (''<-L Replace '' @ relative_path src_entry,
             if isfile dst_entry then copy_file api (path dst_entry) (path src_entry)
             else p_return ())
      | _ \<Rightarrow> ([], p_return ()))"

definition sync_ops :: "'fs os_api \<Rightarrow> snapshot \<Rightarrow> snapshot \<Rightarrow> diff_result \<Rightarrow> string \<Rightarrow> bool \<Rightarrow> bool \<Rightarrow> 'fs op list" where
  "sync_ops api S D d dst replace_changed delete_files =
     map (copy_op api S dst ''R-> Copy '') (left_only d)
     @ (if delete_files then map (delete_op api D) (depth_sort (right_only d)) else [])
     @ (if replace_changed then map (replace_op api S D) (changed d) else [])"

definition bidir_ops :: "'fs os_api \<Rightarrow> snapshot \<Rightarrow> snapshot \<Rightarrow> diff_result \<Rightarrow> string \<Rightarrow> string \<Rightarrow> bool \<Rightarrow> 'fs op list" where
  "bidir_ops api S D d src dst replace_changed =
     map (copy_op api S dst ''R-> Copy '') (left_only d)
     @ map (copy_op api D src ''<-L Copy '') (right_only d)
     @ (if replace_changed then map (newer_op api S D) (changed d) else [])"

text \<open>
  The operations followed by \<^verbatim>\<open>reporter.done('Done!')\<close>, and the whole of a call from
  \<^verbatim>\<open>set_total\<close> on: the operations when there are any, the short way out otherwise.
\<close>

definition run_all :: "bool \<Rightarrow> 'fs op list \<Rightarrow> (unit, 'fs world \<times> Reporter) prog" where
  "run_all dry ops = p_bind (run_ops dry ops) (\<lambda>u. on_reporter (Reporter_done ''Done!''))"

definition run_form :: "bool \<Rightarrow> 'fs op list \<Rightarrow> string \<Rightarrow> (unit, 'fs world \<times> Reporter) prog" where
  "run_form dry ops m s =
     (if int (length ops) \<noteq> 0
        then run_all dry ops
               (fst s, announced (int (length ops))
                         [Start m, Info (''Syncing '' @ str_int (int (length ops)) @ '' files.'')] (snd s))
      else (Inr (), (fst s, announced (int (length ops))
                         [Start m, Done ''Done! Nothing to sync.''] (snd s))))"

text \<open>
  An action that returns or raises an \<^verbatim>\<open>OSError\<close>, whatever the world; and the four
  lists of \<open>diff\<close> as filters of the iteration order.
\<close>

definition raises_os_only :: "(unit, 'fs world) prog \<Rightarrow> bool" where
  "raises_os_only act = (\<forall>v. fst (act v) = Inr () \<or> (\<exists>msg. fst (act v) = Inl (OSError msg)))"

definition diff_lists :: "(string list \<Rightarrow> string list) \<Rightarrow> snapshot \<Rightarrow> snapshot \<Rightarrow> diff_result" where
  "diff_lists iter A B =
     \<lparr>left_only = filter (cls_left A B) (iter (keys A @ keys B)),
      right_only = filter (cls_right A B) (iter (keys A @ keys B)),
      changed = filter (cls_changed A B) (iter (keys A @ keys B)),
      common = filter (cls_common A B) (iter (keys A @ keys B))\<rparr>"

section \<open>A file system for examples\<close>

text \<open>
  A small operating system on which the functions can be run: its state is the list
  of the changes made so far, what it reads is fixed by a table of directory walks
  (which also says what is a file and what a directory) and a table of mtimes, its paths are joined with \<^verbatim>\<open>/\<close>, and writing to a path of
  the list \<open>readonly\<close> fails with \<^verbatim>\<open>Permission denied\<close>.
\<close>

datatype os_op = Remove string | Rmdir string | Makedirs string | Copy2 string string

definition join_slash :: "string list \<Rightarrow> string" where
  "join_slash parts = foldr (\<lambda>p acc. if acc = [] then p else p @ ''/'' @ acc) parts []"

definition dirname_slash :: "string \<Rightarrow> string" where
  "dirname_slash p = rev (drop 1 (dropWhile (\<lambda>c. c \<noteq> CHR ''/'') (rev p)))"

definition basename_slash :: "string \<Rightarrow> string" where
  "basename_slash p = rev (takeWhile (\<lambda>c. c \<noteq> CHR ''/'') (rev p))"

fun walk_dirs :: "walk \<Rightarrow> string list" where
  "walk_dirs (Walk dir fls subs) = dir # concat (map walk_dirs subs)"

fun walk_files :: "walk \<Rightarrow> string list" where
  "walk_files (Walk dir fls subs) =
     map (\<lambda>fl. dir @ ''/'' @ fl) fls @ concat (map walk_files subs)"

definition mock_api :: "(string \<times> walk) list \<Rightarrow> (string \<times> rat) list \<Rightarrow> string list \<Rightarrow> os_op list os_api" where
  "mock_api trees mtimes readonly =
     \<lparr>os_path_join = join_slash,
      os_path_normpath = (\<lambda>p. p),
      os_path_relpath = (\<lambda>p start. if p = start then ''.'' else drop (length start + 1) p),
      os_path_abspath = (\<lambda>p. p),
      os_path_basename = basename_slash,
      os_path_dirname = dirname_slash,
      os_path_isfile = (\<lambda>f p. p \<in> set (concat (map (\<lambda>t. walk_files (snd t)) trees))),
      os_path_isdir = (\<lambda>f p. p \<in> set (concat (map (\<lambda>t. walk_dirs (snd t)) trees))),
      os_path_getmtime = (\<lambda>f p. case map_of mtimes p of None \<Rightarrow> Inl ''No such file or directory'' | Some m \<Rightarrow> Inr m),
      os_walk = (\<lambda>f p. case map_of trees p of None \<Rightarrow> [] | Some t \<Rightarrow> [t]),
      os_listdir = (\<lambda>f p. Inr []),
      os_remove = (\<lambda>p f. (None, f @ [Remove p])),
      os_rmdir = (\<lambda>p f. (None, f @ [Rmdir p])),
      os_makedirs = (\<lambda>p f. (None, f @ [Makedirs p])),
      shutil_copy2 = (\<lambda>a b f. if b \<in> set readonly then (Some ''Permission denied'', f)
                               else (None, f @ [Copy2 a b])),
      set_iter = remdups\<rparr>"

text \<open>
  A source \<^verbatim>\<open>s\<close> with two files and an empty destination \<^verbatim>\<open>d\<close>: first with
  \<^verbatim>\<open>d/a.txt\<close> not writable (\<open>mock1\<close>), then with everything writable (\<open>mock3\<close>).
  \<open>S1\<close>, \<open>D1\<close> and \<open>d1\<close> are the snapshots of the two trees and their diff, \<open>w3\<close>,
  \<open>r3\<close> and \<open>r3b\<close> the world and the reporters after a run on \<open>mock3\<close>.
\<close>

definition trees1 :: "(string \<times> walk) list" where
  "trees1 = [(''s'', Walk ''s'' [''a.txt'', ''b.txt''] []), (''d'', Walk ''d'' [] [])]"

definition mtimes1 :: "(string \<times> rat) list" where
  "mtimes1 = [(''s'', 5), (''d'', 5), (''s/a.txt'', 100), (''s/b.txt'', 7)]"

definition w0 :: "os_op list world" where
  "w0 = \<lparr>fs = [], printed = []\<rparr>"

definition mock1 :: "os_op list os_api" where
  "mock1 = mock_api trees1 mtimes1 [''d/a.txt'']"

definition mock3 :: "os_op list os_api" where
  "mock3 = mock_api trees1 mtimes1 []"

definition S1 :: snapshot where
  "S1 = [(''.'', \<lparr>path = ''s'', relative_path = ''.'', isfile = False, mtime = 5\<rparr>),
         (''a.txt'', \<lparr>path = ''s/a.txt'', relative_path = ''a.txt'', isfile = True, mtime = 100\<rparr>),
         (''b.txt'', \<lparr>path = ''s/b.txt'', relative_path = ''b.txt'', isfile = True, mtime = 7\<rparr>)]"

definition D1 :: snapshot where
  "D1 = [(''.'', \<lparr>path = ''d'', relative_path = ''.'', isfile = False, mtime = 5\<rparr>)]"

definition d1 :: diff_result where
  "d1 = \<lparr>left_only = [''a.txt'', ''b.txt''], right_only = [], changed = [], common = [''.'']\<rparr>"

definition w3 :: "os_op list world" where
  "w3 = \<lparr>fs = [Copy2 ''s/a.txt'' ''d/a.txt'', Copy2 ''s/b.txt'' ''d/b.txt''], printed = []\<rparr>"

definition r3 :: Reporter where
  "r3 = \<lparr>name = ''Sync'', total = 2, amount = 2, percent = Ratio_times_100 2 2,
          calls = [SetTotal 2, Start ''s --> d'', Info ''Syncing 2 files.'',
                   Step 1 ''R-> Copy a.txt'', Step 1 ''R-> Copy b.txt'', Done ''Done!'']\<rparr>"

definition r3b :: Reporter where
  "r3b = \<lparr>name = ''Sync'', total = 2, amount = 2, percent = Ratio_times_100 2 2,
          calls = [SetTotal 2, Start ''s <-> d'', Info ''Syncing 2 files.'',
                   Step 1 ''R-> Copy a.txt'', Step 1 ''R-> Copy b.txt'', Done ''Done!'']\<rparr>"

text \<open>
  Two trees that hold only their roots (\<open>mock0\<close>, with the snapshots \<open>A0s\<close> and
  \<open>B0s\<close>), and a source with a directory \<^verbatim>\<open>x\<close> where the destination has an older
  file \<^verbatim>\<open>x\<close> (\<open>mock2\<close>).
\<close>

definition mock0 :: "os_op list os_api" where
  "mock0 = mock_api [(''s'', Walk ''s'' [] []), (''d'', Walk ''d'' [] [])] [(''s'', 5), (''d'', 6)] []"

definition A0s :: snapshot where
  "A0s = [(''.'', \<lparr>path = ''s'', relative_path = ''.'', isfile = False, mtime = 5\<rparr>)]"

definition B0s :: snapshot where
  "B0s = [(''.'', \<lparr>path = ''d'', relative_path = ''.'', isfile = False, mtime = 6\<rparr>)]"





section \<open>What diff computes\<close>

lemma dict_get_None: "dict_get S k = None \<longleftrightarrow> k \<notin> set (keys S)"
  by (simp add: dict_get_def keys_def map_of_eq_None_iff)

lemma diff_step_cls:
  assumes "k \<in> set (keys A) \<union> set (keys B)"
  shows "diff_step A B k d = Inr
     \<lparr>left_only = left_only d @ filter (cls_left A B) [k],
      right_only = right_only d @ filter (cls_right A B) [k],
      changed = changed d @ filter (cls_changed A B) [k],
      common = common d @ filter (cls_common A B) [k]\<rparr>"
proof -
  from assms have "dict_get A k \<noteq> None \<or> dict_get B k \<noteq> None"
    by (auto simp: dict_get_None)
  then show ?thesis
    by (cases "dict_get A k"; cases "dict_get B k")
       (simp_all add: diff_step_def cls_left_def cls_right_def cls_changed_def cls_common_def)
qed

lemma diff_loop_cls:
  assumes "set ks \<subseteq> set (keys A) \<union> set (keys B)"
  shows "diff_loop A B ks d = Inr
     \<lparr>left_only = left_only d @ filter (cls_left A B) ks,
      right_only = right_only d @ filter (cls_right A B) ks,
      changed = changed d @ filter (cls_changed A B) ks,
      common = common d @ filter (cls_common A B) ks\<rparr>"
  using assms
proof (induction ks arbitrary: d)
  case Nil
  then show ?case by simp
next
  case (Cons k ks)
  from Cons.prems have k: "k \<in> set (keys A) \<union> set (keys B)" and ks: "set ks \<subseteq> set (keys A) \<union> set (keys B)"
    by auto
  show ?case
    by (simp add: diff_step_cls[OF k] Cons.IH[OF ks])
qed

lemma diff_cls:
  assumes "set_iter_ok it"
  shows "diff it A B = Inr
     \<lparr>left_only = filter (cls_left A B) (it (keys A @ keys B)),
      right_only = filter (cls_right A B) (it (keys A @ keys B)),
      changed = filter (cls_changed A B) (it (keys A @ keys B)),
      common = filter (cls_common A B) (it (keys A @ keys B))\<rparr>"
proof -
  have "set (it (keys A @ keys B)) \<subseteq> set (keys A) \<union> set (keys B)"
    using assms by (simp add: set_iter_ok_def)
  then show ?thesis
    by (simp add: diff_def diff_loop_cls empty_diff_def)
qed

lemma set_iter_ok_remdups: "set_iter_ok remdups"
  by (simp add: set_iter_ok_def)

lemma cls_disjoint:
  "\<not> (cls_left A B k \<and> cls_right A B k)" "\<not> (cls_left A B k \<and> cls_changed A B k)"
  "\<not> (cls_left A B k \<and> cls_common A B k)" "\<not> (cls_right A B k \<and> cls_changed A B k)"
  "\<not> (cls_right A B k \<and> cls_common A B k)" "\<not> (cls_changed A B k \<and> cls_common A B k)"
  by (auto simp: cls_left_def cls_right_def cls_changed_def cls_common_def split: option.splits)

lemma cls_cover:
  assumes "k \<in> set (keys A) \<union> set (keys B)"
  shows "(cls_left A B k \<or> cls_right A B k \<or> cls_changed A B k \<or> cls_common A B k) \<longleftrightarrow>
     \<not> (\<exists>p n. dict_get A k = Some p \<and> dict_get B k = Some n \<and> mtime n \<noteq> mtime p \<and> \<not> isfile n)"
proof -
  from assms have "dict_get A k \<noteq> None \<or> dict_get B k \<noteq> None"
    by (auto simp: dict_get_None)
  then show ?thesis
    by (cases "dict_get A k"; cases "dict_get B k")
       (auto simp: cls_left_def cls_right_def cls_changed_def cls_common_def)
qed

text \<open>
  C1, as the code has it. For every pair of snapshots \<open>diff\<close> returns (it never raises)
  and no key occurs twice in the four lists taken together, so the lists are pairwise
  disjoint. Their union holds keys of the two snapshots only, and it holds every such
  key with one exception: a key that is in both snapshots with differing mtimes and
  whose entry in the second snapshot is a directory.
\<close>

theorem diff_partition:
  assumes "set_iter_ok iter"
  shows "\<exists>d. diff iter A B = Inr d \<and>
     distinct (left_only d @ right_only d @ changed d @ common d) \<and>
     set (left_only d) \<union> set (right_only d) \<union> set (changed d) \<union> set (common d)
       \<subseteq> set (keys A) \<union> set (keys B) \<and>
     (\<forall>k \<in> set (keys A) \<union> set (keys B).
        \<not> (\<exists>p n. dict_get A k = Some p \<and> dict_get B k = Some n \<and>
                 mtime n \<noteq> mtime p \<and> \<not> isfile n) \<longrightarrow>
        k \<in> set (left_only d) \<union> set (right_only d) \<union> set (changed d) \<union> set (common d))"
proof -
  let ?ks = "iter (keys A @ keys B)"
  let ?d = "\<lparr>left_only = filter (cls_left A B) ?ks, right_only = filter (cls_right A B) ?ks,
      changed = filter (cls_changed A B) ?ks, common = filter (cls_common A B) ?ks\<rparr>"
  have d: "diff iter A B = Inr ?d"
    by (rule diff_cls[OF assms])
  have dist: "distinct ?ks" and ks: "set ?ks = set (keys A) \<union> set (keys B)"
    using assms by (simp_all add: set_iter_ok_def)
  have 1: "distinct (left_only ?d @ right_only ?d @ changed ?d @ common ?d)"
    using dist cls_disjoint[of A B] by auto
  have 2: "set (left_only ?d) \<union> set (right_only ?d) \<union> set (changed ?d) \<union> set (common ?d)
       \<subseteq> set (keys A) \<union> set (keys B)"
    using ks by auto
  have 3: "k \<in> set (left_only ?d) \<union> set (right_only ?d) \<union> set (changed ?d) \<union> set (common ?d)"
    if "k \<in> set (keys A) \<union> set (keys B)"
      and "\<not> (\<exists>p n. dict_get A k = Some p \<and> dict_get B k = Some n \<and>
                 mtime n \<noteq> mtime p \<and> \<not> isfile n)" for k
    using cls_cover[OF that(1)] that by (simp add: ks)
  from 3 have 4: "\<forall>k \<in> set (keys A) \<union> set (keys B).
        \<not> (\<exists>p n. dict_get A k = Some p \<and> dict_get B k = Some n \<and>
                 mtime n \<noteq> mtime p \<and> \<not> isfile n) \<longrightarrow>
        k \<in> set (left_only ?d) \<union> set (right_only ?d) \<union> set (changed ?d) \<union> set (common ?d)"
    by blast
  from d 1 2 4 show ?thesis by (intro exI[of _ ?d] conjI)
qed

theorem diff_partition_witness:
  "set_iter_ok remdups \<and> ''a.txt'' \<in> set (keys A2) \<union> set (keys B2) \<and>
   \<not> (\<exists>p n. dict_get A2 ''a.txt'' = Some p \<and> dict_get B2 ''a.txt'' = Some n \<and>
            mtime n \<noteq> mtime p \<and> \<not> isfile n) \<and>
   (\<exists>d. diff remdups A2 B2 = Inr d \<and>
      distinct (left_only d @ right_only d @ changed d @ common d) \<and>
      set (left_only d) \<union> set (right_only d) \<union> set (changed d) \<union> set (common d)
        \<subseteq> set (keys A2) \<union> set (keys B2) \<and>
      ''a.txt'' \<in> set (left_only d) \<union> set (right_only d) \<union> set (changed d) \<union> set (common d))"
proof -
  have k: "''a.txt'' \<in> set (keys A2) \<union> set (keys B2)"
    by (simp add: keys_def A2_def)
  have x: "\<not> (\<exists>p n. dict_get A2 ''a.txt'' = Some p \<and> dict_get B2 ''a.txt'' = Some n \<and>
            mtime n \<noteq> mtime p \<and> \<not> isfile n)"
    by (simp add: dict_get_def B2_def)
  from diff_partition[OF set_iter_ok_remdups, of A2 B2] obtain d where
    d: "diff remdups A2 B2 = Inr d"
      "distinct (left_only d @ right_only d @ changed d @ common d)"
      "set (left_only d) \<union> set (right_only d) \<union> set (changed d) \<union> set (common d)
        \<subseteq> set (keys A2) \<union> set (keys B2)"
      "\<forall>k \<in> set (keys A2) \<union> set (keys B2).
        \<not> (\<exists>p n. dict_get A2 k = Some p \<and> dict_get B2 k = Some n \<and>
                 mtime n \<noteq> mtime p \<and> \<not> isfile n) \<longrightarrow>
        k \<in> set (left_only d) \<union> set (right_only d) \<union> set (changed d) \<union> set (common d)"
    by blast
  from d(4) k x have
    "''a.txt'' \<in> set (left_only d) \<union> set (right_only d) \<union> set (changed d) \<union> set (common d)"
    by blast
  with set_iter_ok_remdups k x d(1,2,3) show ?thesis by blast
qed

theorem diff_partition_counterexample:
  "diff remdups A0 B0 = Inr \<lparr>left_only = [], right_only = [], changed = [], common = []\<rparr> \<and>
   ''.'' \<in> set (keys A0) \<union> set (keys B0)"
  by (simp add: diff_def A0_def B0_def keys_def diff_step_def dict_get_def empty_diff_def)

text \<open>
  C2, as the code has it. A key that is a directory in both snapshots, with differing
  mtimes, is never classified as changed (nor as unique to one side).
\<close>

theorem diff_directory_mtime:
  assumes "set_iter_ok iter"
    and "dict_get A k = Some p" and "dict_get B k = Some n"
    and "\<not> isfile p" and "\<not> isfile n" and "mtime p \<noteq> mtime n"
  shows "\<exists>d. diff iter A B = Inr d \<and> k \<notin> set (changed d) \<and>
     k \<notin> set (left_only d) \<and> k \<notin> set (right_only d)"
  using assms(2-)
  by (simp add: diff_cls[OF assms(1)] cls_left_def cls_right_def cls_changed_def)

theorem diff_directory_mtime_witness:
  "set_iter_ok remdups \<and>
   dict_get A1 ''assets'' =
     Some \<lparr>path = ''/s/assets'', relative_path = ''assets'', isfile = False, mtime = 10\<rparr> \<and>
   dict_get B1 ''assets'' =
     Some \<lparr>path = ''/d/assets'', relative_path = ''assets'', isfile = False, mtime = 20\<rparr> \<and>
   (\<exists>d. diff remdups A1 B1 = Inr d \<and> ''assets'' \<notin> set (changed d) \<and>
      ''assets'' \<notin> set (left_only d) \<and> ''assets'' \<notin> set (right_only d))"
proof -
  have a: "dict_get A1 ''assets'' =
     Some \<lparr>path = ''/s/assets'', relative_path = ''assets'', isfile = False, mtime = 10\<rparr>"
    by (simp add: A1_def dict_get_def)
  have b: "dict_get B1 ''assets'' =
     Some \<lparr>path = ''/d/assets'', relative_path = ''assets'', isfile = False, mtime = 20\<rparr>"
    by (simp add: B1_def dict_get_def)
  show ?thesis
    using set_iter_ok_remdups a b diff_directory_mtime[OF set_iter_ok_remdups a b] by simp
qed

theorem diff_directory_mtime_counterexample:
  "dict_get A1 ''assets'' =
     Some \<lparr>path = ''/s/assets'', relative_path = ''assets'', isfile = False, mtime = 10\<rparr> \<and>
   dict_get B1 ''assets'' =
     Some \<lparr>path = ''/d/assets'', relative_path = ''assets'', isfile = False, mtime = 20\<rparr> \<and>
   diff remdups A1 B1 =
     Inr \<lparr>left_only = [], right_only = [], changed = [], common = [''.'']\<rparr> \<and>
   ''assets'' \<notin> set [''.'']"
  by (simp add: diff_def A1_def B1_def keys_def diff_step_def dict_get_def empty_diff_def)

text \<open>
  C10. Swapping the two snapshots swaps the unique sides: the keys in \<open>left_only\<close> of
  \<open>diff A B\<close> are the keys in \<open>right_only\<close> of \<open>diff B A\<close>, and the other way round,
  whatever order the two key sets are iterated in.
\<close>

theorem diff_mirror:
  assumes "set_iter_ok it1" and "set_iter_ok it2"
  shows "\<exists>d1 d2. diff it1 A B = Inr d1 \<and> diff it2 B A = Inr d2 \<and>
     set (left_only d1) = set (right_only d2) \<and> set (right_only d1) = set (left_only d2)"
proof -
  have 1: "set (it1 (keys A @ keys B)) = set (keys A) \<union> set (keys B)"
    using assms(1) by (simp add: set_iter_ok_def)
  have 2: "set (it2 (keys B @ keys A)) = set (keys A) \<union> set (keys B)"
    using assms(2) by (auto simp add: set_iter_ok_def)
  have 3: "cls_right B A = cls_left A B" "cls_left B A = cls_right A B"
    by (auto simp: cls_left_def cls_right_def fun_eq_iff)
  show ?thesis
    by (simp add: diff_cls[OF assms(1)] diff_cls[OF assms(2)] 1 2 3)
qed

theorem diff_mirror_witness:
  "set_iter_ok remdups \<and> set_iter_ok (\<lambda>ks. rev (remdups ks)) \<and>
   (\<exists>d1 d2. diff remdups A2 B2 = Inr d1 \<and> diff (\<lambda>ks. rev (remdups ks)) B2 A2 = Inr d2 \<and>
     set (left_only d1) = set (right_only d2) \<and> set (right_only d1) = set (left_only d2))"
proof -
  have r: "set_iter_ok (\<lambda>ks. rev (remdups ks))"
    by (simp add: set_iter_ok_def)
  show ?thesis
    using set_iter_ok_remdups r diff_mirror[OF set_iter_ok_remdups r, of A2 B2] by simp
qed

section \<open>The order of depth_sort\<close>

lemma ancestor_sep_count: "ancestor a p \<Longrightarrow> sep_count a < sep_count p"
  by (auto simp: ancestor_def prefix_def sep_count_def)

lemma depth_sort_sorted: "sorted (map (\<lambda>x. - int (sep_count x)) (depth_sort files))"
  by (simp add: depth_sort_def)

text \<open>
  C8, as the code has it. \<open>depth_sort\<close> rearranges its input with the separator counts
  descending: of two positions the earlier holds at least as many separators as the
  later. So a path is never placed after one of its own ancestors: the ancestor,
  having fewer separators, never comes first.
\<close>

theorem depth_sort_order:
  assumes "i < j" and "j < length (depth_sort files)"
  shows "mset (depth_sort files) = mset files \<and>
     sep_count (depth_sort files ! j) \<le> sep_count (depth_sort files ! i) \<and>
     \<not> ancestor (depth_sort files ! i) (depth_sort files ! j)"
proof -
  let ?xs = "depth_sort files"
  have "map (\<lambda>x. - int (sep_count x)) ?xs ! i \<le> map (\<lambda>x. - int (sep_count x)) ?xs ! j"
    using depth_sort_sorted[of files] assms by (simp add: sorted_iff_nth_mono)
  then have le: "sep_count (?xs ! j) \<le> sep_count (?xs ! i)"
    using assms by simp
  have "\<not> ancestor (?xs ! i) (?xs ! j)"
    using le ancestor_sep_count[of "?xs ! i" "?xs ! j"] by auto
  then show ?thesis
    using le by (simp add: depth_sort_def)
qed

theorem depth_sort_order_witness:
  "(0::nat) < 1 \<and> 1 < length (depth_sort [''a'', ''a/b'']) \<and>
   mset (depth_sort [''a'', ''a/b'']) = mset [''a'', ''a/b''] \<and>
   sep_count (depth_sort [''a'', ''a/b''] ! 1) \<le> sep_count (depth_sort [''a'', ''a/b''] ! 0) \<and>
   \<not> ancestor (depth_sort [''a'', ''a/b''] ! 0) (depth_sort [''a'', ''a/b''] ! 1)"
proof -
  have h1: "(0::nat) < 1" by simp
  have h2: "1 < length (depth_sort [''a'', ''a/b''])" by (simp add: depth_sort_def)
  show ?thesis
    using h1 h2 depth_sort_order[OF h1 h2] by simp
qed

theorem depth_sort_order_counterexample:
  "depth_sort [''a'', ''a/b''] = [''a/b'', ''a''] \<and> ancestor ''a'' ''a/b''"
  by (simp add: depth_sort_def sep_count_def ancestor_def)

section \<open>Steps of the reporter and loops\<close>

lemma step_all_Nil [simp]: "step_all [] r = r"
  by (simp add: step_all_def)

lemma step_all_Cons [simp]: "step_all (m # ms) r = step_all ms (stepped m r)"
  by (simp add: step_all_def)

lemma total_stepped [simp]: "total (stepped m r) = total r"
  by (simp add: stepped_def)

lemma total_step_all [simp]: "total (step_all ms r) = total r"
  by (induction ms arbitrary: r) simp_all

lemma calls_step_all: "calls (step_all ms r) = calls r @ map (Step 1) ms"
  by (induction ms arbitrary: r) (simp_all add: stepped_def)

lemma Reporter_step_ok: "total r \<noteq> 0 \<Longrightarrow> Reporter_step 1 m r = (Inr (), stepped m r)"
  by (simp add: Reporter_step_def stepped_def Let_def)

lemma step_then_dry:
  "total r \<noteq> 0 \<Longrightarrow> step_then True m act (w, r) = (Inr (), (w, stepped m r))"
  by (simp add: step_then_def p_bind_def on_reporter_def Reporter_step_ok p_return_def)

lemma step_then_run:
  "total r \<noteq> 0 \<Longrightarrow>
   step_then False m act (w, r) = (case act w of (x, w') \<Rightarrow> (x, (w', stepped m r)))"
  by (simp add: step_then_def p_bind_def on_reporter_def Reporter_step_ok on_world_def)

lemma steps_loop:
  assumes "total r \<noteq> 0"
    and "for_each (\<lambda>k. step_then dry (mf k) (af k)) ks (w, r) = (res, (w', r'))"
  shows "\<exists>j\<le>length ks. r' = step_all (map mf (take j ks)) r \<and> (res = Inr () \<longrightarrow> j = length ks)"
    and "dry \<longrightarrow> res = Inr () \<and> w' = w"
    and "(\<forall>k\<in>set ks. \<forall>v. fst (af k v) \<noteq> Inl ZeroDivisionError) \<longrightarrow> res \<noteq> Inl ZeroDivisionError"
  using assms
proof (induction ks arbitrary: w r)
  case Nil
  {
    case 1 then show ?case by simp
  next
    case 2 then show ?case by simp
  next
    case 3 then show ?case by auto
  }
next
  case (Cons k ks)
  {
    case 1
    show ?case
    proof (cases dry)
      case True
      with 1 have "for_each (\<lambda>k. step_then dry (mf k) (af k)) ks (w, stepped (mf k) r) = (res, (w', r'))"
        by (simp add: step_then_dry)
      from Cons.IH(1)[OF _ this] obtain j where
        "j \<le> length ks" "r' = step_all (map mf (take j ks)) (stepped (mf k) r)" "res = Inr () \<longrightarrow> j = length ks"
        using 1 by auto
      then show ?thesis
        by (intro exI[of _ "Suc j"]) simp
    next
      case False
      obtain x w1 where act: "af k w = (x, w1)" by (cases "af k w")
      show ?thesis
      proof (cases x)
        case (Inl e)
        with 1 False act have "res = Inl e" "r' = stepped (mf k) r"
          by (simp_all add: step_then_run)
        then show ?thesis
          by (intro exI[of _ "Suc 0"]) simp
      next
        case (Inr u)
        with 1 False act have "for_each (\<lambda>k. step_then dry (mf k) (af k)) ks (w1, stepped (mf k) r) = (res, (w', r'))"
          by (simp add: step_then_run)
        from Cons.IH(1)[OF _ this] obtain j where
          "j \<le> length ks" "r' = step_all (map mf (take j ks)) (stepped (mf k) r)" "res = Inr () \<longrightarrow> j = length ks"
          using 1 by auto
        then show ?thesis
          by (intro exI[of _ "Suc j"]) simp
      qed
    qed
  next
    case 2
    show ?case
    proof
      assume d: dry
      with 2 have "for_each (\<lambda>k. step_then dry (mf k) (af k)) ks (w, stepped (mf k) r) = (res, (w', r'))"
        by (simp add: step_then_dry)
      from Cons.IH(2)[OF _ this] d 2 show "res = Inr () \<and> w' = w" by simp
    qed
  next
    case 3
    show ?case
    proof
      assume nz: "\<forall>k\<in>set (k # ks). \<forall>v. fst (af k v) \<noteq> Inl ZeroDivisionError"
      show "res \<noteq> Inl ZeroDivisionError"
      proof (cases dry)
        case True
        with 3 have "for_each (\<lambda>k. step_then dry (mf k) (af k)) ks (w, stepped (mf k) r) = (res, (w', r'))"
          by (simp add: step_then_dry)
        from Cons.IH(3)[OF _ this] nz 3 show ?thesis by simp
      next
        case False
        obtain x w1 where act: "af k w = (x, w1)" by (cases "af k w")
        show ?thesis
        proof (cases x)
          case (Inl e)
          with 3 False act have "res = Inl e"
            by (simp_all add: step_then_run)
          moreover have "x \<noteq> Inl ZeroDivisionError"
            using nz act by (metis fst_conv list.set_intros(1))
          ultimately show ?thesis using Inl by simp
        next
          case (Inr u)
          with 3 False act have "for_each (\<lambda>k. step_then dry (mf k) (af k)) ks (w1, stepped (mf k) r) = (res, (w', r'))"
            by (simp add: step_then_run)
          from Cons.IH(3)[OF _ this] nz 3 show ?thesis by simp
        qed
      qed
    qed
  }
qed

lemma p_bind_return [simp]: "p_bind (p_return x) f = f x"
  by (simp add: p_bind_def p_return_def fun_eq_iff)

lemma p_bind_assoc: "p_bind (p_bind m f) g = p_bind m (\<lambda>x. p_bind (f x) g)"
  by (auto simp: p_bind_def fun_eq_iff split: prod.splits sum.splits)

lemma for_each_Nil_fun [simp]: "for_each body [] = p_return ()"
  by (simp add: fun_eq_iff p_return_def)

lemma for_each_cong_set:
  "(\<And>k. k \<in> set ks \<Longrightarrow> f k = g k) \<Longrightarrow> for_each f ks = for_each g ks"
proof (induction ks)
  case Nil
  show ?case by simp
next
  case (Cons k ks)
  then have "for_each f ks = for_each g ks" "f k = g k" by simp_all
  then show ?case by (intro ext) (simp split: prod.splits sum.splits)
qed

lemma for_each_map: "for_each f (map g ks) = for_each (\<lambda>k. f (g k)) ks"
proof (induction ks)
  case Nil
  show ?case by simp
next
  case (Cons k ks)
  then show ?case by (intro ext) (simp split: prod.splits sum.splits)
qed

lemma for_each_append:
  "for_each f (xs @ ys) = p_bind (for_each f xs) (\<lambda>u. for_each f ys)"
proof (induction xs)
  case Nil
  show ?case by simp
next
  case (Cons x xs)
  show ?case
  proof (rule ext)
    fix s
    show "for_each f ((x # xs) @ ys) s = p_bind (for_each f (x # xs)) (\<lambda>u. for_each f ys) s"
      using Cons by (cases "f x s") (auto simp: p_bind_def split: sum.splits)
  qed
qed

lemma run_ops_append:
  "p_bind (run_ops dry xs) (\<lambda>u. p_bind (run_ops dry ys) K) = p_bind (run_ops dry (xs @ ys)) K"
  by (simp add: run_ops_def for_each_append p_bind_assoc)

lemma loop_as_ops:
  assumes "\<And>k. k \<in> set ks \<Longrightarrow> body k = step_then dry (fst (opf k)) (snd (opf k))"
  shows "for_each body ks = run_ops dry (map opf ks)"
  unfolding run_ops_def for_each_map
  by (rule for_each_cong_set) (rule assms)

lemma copy_unique_op:
  "dict_get snap k \<noteq> None \<Longrightarrow>
   copy_unique api snap target label dry k =
     step_then dry (fst (copy_op api snap target label k)) (snd (copy_op api snap target label k))"
  by (auto simp: copy_unique_def copy_op_def Let_def)

lemma delete_unique_op:
  "dict_get D k \<noteq> None \<Longrightarrow>
   delete_unique api D dry k = step_then dry (fst (delete_op api D k)) (snd (delete_op api D k))"
  by (auto simp: delete_unique_def delete_op_def)

lemma replace_changed_entry_op:
  "dict_get S k \<noteq> None \<Longrightarrow> dict_get D k \<noteq> None \<Longrightarrow>
   replace_changed_entry api S D dry k =
     step_then dry (fst (replace_op api S D k)) (snd (replace_op api S D k))"
  by (auto simp: replace_changed_entry_def replace_op_def)

lemma replace_newer_entry_op:
  "dict_get S k \<noteq> None \<Longrightarrow> dict_get D k \<noteq> None \<Longrightarrow>
   replace_newer_entry api S D dry k =
     step_then dry (fst (newer_op api S D k)) (snd (newer_op api S D k))"
  by (auto simp: replace_newer_entry_def newer_op_def)

lemma diff_keys_present:
  assumes "set_iter_ok it" and "diff it S D = Inr d"
  shows "k \<in> set (left_only d) \<Longrightarrow> dict_get S k \<noteq> None"
    and "k \<in> set (right_only d) \<Longrightarrow> dict_get D k \<noteq> None"
    and "k \<in> set (changed d) \<Longrightarrow> dict_get S k \<noteq> None \<and> dict_get D k \<noteq> None"
  using assms(2) unfolding diff_cls[OF assms(1)]
  by (auto simp: cls_left_def cls_right_def cls_changed_def split: option.splits)

lemma on_world_take:
  "on_world (take_prog api p depth) (w, r) = (take_snapshot api (fs w) p depth, (w, r))"
  by (simp add: on_world_def take_prog_def)

lemma on_reporter_simps:
  "on_reporter (Reporter_set_total n) (w, r) = (Inr (), (w, r\<lparr>total := n, calls := calls r @ [SetTotal n]\<rparr>))"
  "on_reporter (Reporter_start m) (w, r) = (Inr (), (w, r\<lparr>calls := calls r @ [Start m]\<rparr>))"
  "on_reporter (Reporter_info m) (w, r) = (Inr (), (w, r\<lparr>calls := calls r @ [Info m]\<rparr>))"
  "on_reporter (Reporter_done m) (w, r) = (Inr (), (w, r\<lparr>calls := calls r @ [Done m]\<rparr>))"
  by (simp_all add: on_reporter_def Reporter_set_total_def Reporter_start_def Reporter_info_def
        Reporter_done_def)

lemma sync_loops:
  assumes ok: "set_iter_ok (set_iter api)" and d: "diff (set_iter api) S D = Inr d"
  shows "p_bind (for_each (copy_unique api S dst ''R-> Copy '' dry) (left_only d)) (\<lambda>u.
         p_bind (if delete_files
                   then for_each (delete_unique api D dry) (depth_sort (right_only d))
                 else p_return ()) (\<lambda>u.
         p_bind (if replace_changed
                   then for_each (replace_changed_entry api S D dry) (changed d)
                 else p_return ()) K))
       = p_bind (run_ops dry (sync_ops api S D d dst replace_changed delete_files)) K"
proof -
  note kp = diff_keys_present[OF ok d]
  have 1: "for_each (copy_unique api S dst ''R-> Copy '' dry) (left_only d)
      = run_ops dry (map (copy_op api S dst ''R-> Copy '') (left_only d))"
    by (rule loop_as_ops) (simp add: copy_unique_op kp)
  have 2: "(if delete_files
              then for_each (delete_unique api D dry) (depth_sort (right_only d))
            else p_return ())
      = run_ops dry (if delete_files then map (delete_op api D) (depth_sort (right_only d)) else [])"
  proof (cases delete_files)
    case True
    have "for_each (delete_unique api D dry) (depth_sort (right_only d))
        = run_ops dry (map (delete_op api D) (depth_sort (right_only d)))"
      by (rule loop_as_ops) (simp add: delete_unique_op kp depth_sort_def)
    with True show ?thesis by simp
  next
    case False
    then show ?thesis by (simp add: run_ops_def)
  qed
  have 3: "(if replace_changed
              then for_each (replace_changed_entry api S D dry) (changed d)
            else p_return ())
      = run_ops dry (if replace_changed then map (replace_op api S D) (changed d) else [])"
  proof (cases replace_changed)
    case True
    have "for_each (replace_changed_entry api S D dry) (changed d)
        = run_ops dry (map (replace_op api S D) (changed d))"
      by (rule loop_as_ops) (simp add: replace_changed_entry_op kp)
    with True show ?thesis by simp
  next
    case False
    then show ?thesis by (simp add: run_ops_def)
  qed
  show ?thesis
    unfolding 1 2 3 sync_ops_def
    by (simp only: run_ops_append append_assoc)
qed

lemma bidir_loops:
  assumes ok: "set_iter_ok (set_iter api)" and d: "diff (set_iter api) S D = Inr d"
  shows "p_bind (for_each (copy_unique api S dst ''R-> Copy '' dry) (left_only d)) (\<lambda>u.
         p_bind (for_each (copy_unique api D src ''<-L Copy '' dry) (right_only d)) (\<lambda>u.
         p_bind (if replace_changed
                   then for_each (replace_newer_entry api S D dry) (changed d)
                 else p_return ()) K))
       = p_bind (run_ops dry (bidir_ops api S D d src dst replace_changed)) K"
proof -
  note kp = diff_keys_present[OF ok d]
  have 1: "for_each (copy_unique api S dst ''R-> Copy '' dry) (left_only d)
      = run_ops dry (map (copy_op api S dst ''R-> Copy '') (left_only d))"
    by (rule loop_as_ops) (simp add: copy_unique_op kp)
  have 2: "for_each (copy_unique api D src ''<-L Copy '' dry) (right_only d)
      = run_ops dry (map (copy_op api D src ''<-L Copy '') (right_only d))"
    by (rule loop_as_ops) (simp add: copy_unique_op kp)
  have 3: "(if replace_changed
              then for_each (replace_newer_entry api S D dry) (changed d)
            else p_return ())
      = run_ops dry (if replace_changed then map (newer_op api S D) (changed d) else [])"
  proof (cases replace_changed)
    case True
    have "for_each (replace_newer_entry api S D dry) (changed d)
        = run_ops dry (map (newer_op api S D) (changed d))"
      by (rule loop_as_ops) (simp add: replace_newer_entry_op kp)
    with True show ?thesis by simp
  next
    case False
    then show ?thesis by (simp add: run_ops_def)
  qed
  show ?thesis
    unfolding 1 2 3 bidir_ops_def
    by (simp only: run_ops_append append_assoc)
qed

lemma length_sync_ops:
  "int (length (sync_ops api S D d dst replace_changed delete_files)) =
     int (length (left_only d))
     + (if delete_files then int (length (right_only d)) else 0)
     + (if replace_changed then int (length (changed d)) else 0)"
  by (simp add: sync_ops_def depth_sort_def)

lemma length_bidir_ops:
  "int (length (bidir_ops api S D d src dst replace_changed)) =
     int (length (left_only d)) + int (length (right_only d))
     + (if replace_changed then int (length (changed d)) else 0)"
  by (simp add: bidir_ops_def)

lemma sync_take_src_fails:
  assumes "take_snapshot api (fs w) (normalize api [src0]) (-1) = Inl e"
  shows "sync api src0 dst0 replace_changed delete_files dry reporter w =
     (Inl e, (w, reporter_or_default reporter))"
  using assms by (simp add: sync_def Let_def p_bind_def on_world_take)

lemma sync_take_dst_fails:
  assumes "take_snapshot api (fs w) (normalize api [src0]) (-1) = Inr S"
    and "take_snapshot api (fs w) (normalize api [dst0]) (-1) = Inl e"
  shows "sync api src0 dst0 replace_changed delete_files dry reporter w =
     (Inl e, (w, reporter_or_default reporter))"
  using assms by (simp add: sync_def Let_def p_bind_def on_world_take)

lemma p_bind_take:
  "p_bind (on_world (take_prog api p depth)) f (w, r) =
     (case take_snapshot api (fs w) p depth of Inl e \<Rightarrow> (Inl e, (w, r)) | Inr S \<Rightarrow> f S (w, r))"
  by (simp add: p_bind_def on_world_take split: sum.splits)

lemma p_bind_lift:
  "p_bind (p_lift x) f s = (case x of Inl e \<Rightarrow> (Inl e, s) | Inr v \<Rightarrow> f v s)"
  by (simp add: p_bind_def p_lift_def split: sum.splits)

lemma p_bind_reporter:
  "p_bind (on_reporter (Reporter_set_total n)) f (w, r) =
     f () (w, r\<lparr>total := n, calls := calls r @ [SetTotal n]\<rparr>)"
  "p_bind (on_reporter (Reporter_start m)) f (w, r) = f () (w, r\<lparr>calls := calls r @ [Start m]\<rparr>)"
  "p_bind (on_reporter (Reporter_info m)) f (w, r) = f () (w, r\<lparr>calls := calls r @ [Info m]\<rparr>)"
  by (simp_all add: p_bind_def on_reporter_simps)

lemma sync_unfold:
  assumes ok: "set_iter_ok (set_iter api)"
    and S: "take_snapshot api (fs w) (normalize api [src0]) (-1) = Inr S"
    and D: "take_snapshot api (fs w) (normalize api [dst0]) (-1) = Inr D"
    and d: "diff (set_iter api) S D = Inr d"
    and ops: "ops = sync_ops api S D d (normalize api [dst0]) replace_changed delete_files"
    and n: "n = int (length ops)"
    and r0: "r0 = reporter_or_default reporter"
    and m: "m = normalize api [src0] @ '' --> '' @ normalize api [dst0]"
  shows "sync api src0 dst0 replace_changed delete_files dry reporter w =
     (if n \<noteq> 0
        then run_all dry ops
               (w, announced n [Start m, Info (''Syncing '' @ str_int n @ '' files.'')] r0)
      else (Inr (), (w, announced n [Start m, Done ''Done! Nothing to sync.''] r0)))"
proof -
  have n': "int (length (left_only d))
     + (if delete_files then int (length (right_only d)) else 0)
     + (if replace_changed then int (length (changed d)) else 0) = n"
    unfolding n ops by (rule length_sync_ops[symmetric])
  have "sync api src0 dst0 replace_changed delete_files dry reporter w =
     (if n \<noteq> 0
        then p_bind (run_ops dry ops) (\<lambda>u. on_reporter (Reporter_done ''Done!''))
               (w, r0\<lparr>total := n, calls := calls r0 @ [SetTotal n, Start m,
                                  Info (''Syncing '' @ str_int n @ '' files.'')]\<rparr>)
      else (Inr (), (w, r0\<lparr>total := n, calls := calls r0 @ [SetTotal n, Start m,
                                  Done ''Done! Nothing to sync.'']\<rparr>)))"
    unfolding sync_def Let_def p_bind_take S D p_bind_lift d sum.case n' p_bind_reporter
      sync_loops[OF ok d] ops[symmetric] r0[symmetric] m[symmetric]
    by (simp add: p_bind_reporter on_reporter_simps)
  then show ?thesis
    by (simp add: run_all_def announced_def)
qed

lemma bidir_take_src_fails:
  assumes "take_snapshot api (fs w) (normalize api [src0]) (-1) = Inl e"
  shows "sync_bidirectional api src0 dst0 replace_changed dry reporter w =
     (Inl e, (w, reporter_or_default reporter))"
  using assms by (simp add: sync_bidirectional_def Let_def p_bind_def on_world_take)

lemma bidir_take_dst_fails:
  assumes "take_snapshot api (fs w) (normalize api [src0]) (-1) = Inr S"
    and "take_snapshot api (fs w) (normalize api [dst0]) (-1) = Inl e"
  shows "sync_bidirectional api src0 dst0 replace_changed dry reporter w =
     (Inl e, (w, reporter_or_default reporter))"
  using assms by (simp add: sync_bidirectional_def Let_def p_bind_def on_world_take)

lemma bidir_unfold:
  assumes ok: "set_iter_ok (set_iter api)"
    and S: "take_snapshot api (fs w) (normalize api [src0]) (-1) = Inr S"
    and D: "take_snapshot api (fs w) (normalize api [dst0]) (-1) = Inr D"
    and d: "diff (set_iter api) S D = Inr d"
    and ops: "ops = bidir_ops api S D d (normalize api [src0]) (normalize api [dst0]) replace_changed"
    and n: "n = int (length ops)"
    and r0: "r0 = reporter_or_default reporter"
    and m: "m = normalize api [src0] @ '' <-> '' @ normalize api [dst0]"
  shows "sync_bidirectional api src0 dst0 replace_changed dry reporter w =
     (if n \<noteq> 0
        then run_all dry ops
               (w, announced n [Start m, Info (''Syncing '' @ str_int n @ '' files.'')] r0)
      else (Inr (), (w, announced n [Start m, Done ''Done! Nothing to sync.''] r0)))"
proof -
  have n': "int (length (left_only d)) + int (length (right_only d))
     + (if replace_changed then int (length (changed d)) else 0) = n"
    unfolding n ops by (rule length_bidir_ops[symmetric])
  have "sync_bidirectional api src0 dst0 replace_changed dry reporter w =
     (if n \<noteq> 0
        then p_bind (run_ops dry ops) (\<lambda>u. on_reporter (Reporter_done ''Done!''))
               (w, r0\<lparr>total := n, calls := calls r0 @ [SetTotal n, Start m,
                                  Info (''Syncing '' @ str_int n @ '' files.'')]\<rparr>)
      else (Inr (), (w, r0\<lparr>total := n, calls := calls r0 @ [SetTotal n, Start m,
                                  Done ''Done! Nothing to sync.'']\<rparr>)))"
    unfolding sync_bidirectional_def Let_def p_bind_take S D p_bind_lift d sum.case n' p_bind_reporter
      bidir_loops[OF ok d] ops[symmetric] r0[symmetric] m[symmetric]
    by (simp add: p_bind_reporter on_reporter_simps)
  then show ?thesis
    by (simp add: run_all_def announced_def)
qed

lemma run_all_cases:
  assumes "total r \<noteq> 0" and "run_all dry ops (w, r) = (res, (w', r'))"
  shows "res = Inr () \<longrightarrow> r' = finished (map fst ops) r"
    and "dry \<longrightarrow> res = Inr () \<and> w' = w"
    and "(\<forall>op\<in>set ops. \<forall>v. fst (snd op v) \<noteq> Inl ZeroDivisionError) \<longrightarrow> res \<noteq> Inl ZeroDivisionError"
    and "total r' = total r"
    and "\<exists>cs. calls r' = calls r @ cs"
proof -
  obtain res1 w1 r1 where run: "run_ops dry ops (w, r) = (res1, (w1, r1))"
    by (metis surj_pair)
  note facts = steps_loop[OF assms(1) run[unfolded run_ops_def]]
  from facts(1) obtain j where j: "j \<le> length ops" "r1 = step_all (map fst (take j ops)) r"
    "res1 = Inr () \<longrightarrow> j = length ops" by blast
  have "run_all dry ops (w, r) =
      (case res1 of Inl e \<Rightarrow> (Inl e, (w1, r1))
       | Inr u \<Rightarrow> (Inr (), (w1, r1\<lparr>calls := calls r1 @ [Done ''Done!'']\<rparr>)))"
    by (cases res1) (simp_all add: run_all_def p_bind_def run on_reporter_simps)
  with assms(2) have fin: "(res, (w', r')) =
      (case res1 of Inl e \<Rightarrow> (Inl e, (w1, r1))
       | Inr u \<Rightarrow> (Inr (), (w1, r1\<lparr>calls := calls r1 @ [Done ''Done!'']\<rparr>)))"
    by simp
  show "res = Inr () \<longrightarrow> r' = finished (map fst ops) r"
    using fin j by (cases res1) (simp_all add: finished_def)
  show "dry \<longrightarrow> res = Inr () \<and> w' = w"
    using fin facts(2) by (cases res1) auto
  show "(\<forall>op\<in>set ops. \<forall>v. fst (snd op v) \<noteq> Inl ZeroDivisionError) \<longrightarrow> res \<noteq> Inl ZeroDivisionError"
    using fin facts(3) by (cases res1) auto
  show "total r' = total r"
    using fin j by (cases res1) simp_all
  show "\<exists>cs. calls r' = calls r @ cs"
    using fin j by (cases res1) (simp_all add: calls_step_all)
qed

section \<open>The failure policy of the file operations\<close>

lemma try_except_print: "fst (try_except m print_exn w) = Inr ()"
  by (cases "m w") (auto simp: try_except_def print_exn_def split: sum.splits)

lemma remove_file_returns: "fst (remove_file api p w) = Inr ()"
  by (simp add: remove_file_def try_except_print)

lemma remove_folder_returns: "fst (remove_folder api p w) = Inr ()"
  by (simp add: remove_folder_def try_except_print)

lemma create_folder_returns: "fst (create_folder api p w) = Inr ()"
  by (simp add: create_folder_def try_except_print p_return_def)

lemma os_call_result:
  "fst (os_call f w) = (case fst (f (fs w)) of None \<Rightarrow> Inr () | Some msg \<Rightarrow> Inl (OSError msg))"
  by (cases "f (fs w)") (auto simp: os_call_def split: option.splits)

lemma copy_file_unfold:
  "copy_file api src dst w = os_call (shutil_copy2 api src dst) (snd (create_folder api (os_path_dirname api dst) w))"
  using create_folder_returns[of api "os_path_dirname api dst" w]
  by (cases "create_folder api (os_path_dirname api dst) w") (simp add: copy_file_def p_bind_def)

lemma copy_file_result:
  "fst (copy_file api src dst w) =
     (case fst (shutil_copy2 api src dst (fs (snd (create_folder api (os_path_dirname api dst) w)))) of
        None \<Rightarrow> Inr () | Some msg \<Rightarrow> Inl (OSError msg))"
  by (simp add: copy_file_unfold os_call_result)

lemma raises_os_only_simps:
  "raises_os_only (copy_file api a b)" "raises_os_only (create_folder api p)"
  "raises_os_only (remove_file api p)" "raises_os_only (remove_folder api p)"
  "raises_os_only (p_return ())"
  by (auto simp: raises_os_only_def copy_file_result create_folder_returns remove_file_returns
        remove_folder_returns p_return_def split: option.splits)

lemma ops_raise_os_only:
  "raises_os_only (snd (copy_op api snap target label k))"
  "raises_os_only (snd (delete_op api D k))"
  "raises_os_only (snd (replace_op api S D k))"
  "raises_os_only (snd (newer_op api S D k))"
  by (auto simp: copy_op_def delete_op_def replace_op_def newer_op_def raises_os_only_simps
        split: option.splits)

lemma sync_ops_raise_os_only:
  "op \<in> set (sync_ops api S D d dst replace_changed delete_files) \<Longrightarrow> raises_os_only (snd op)"
  by (auto simp: sync_ops_def ops_raise_os_only split: if_splits)

lemma bidir_ops_raise_os_only:
  "op \<in> set (bidir_ops api S D d src dst replace_changed) \<Longrightarrow> raises_os_only (snd op)"
  by (auto simp: bidir_ops_def ops_raise_os_only split: if_splits)

lemma raises_os_only_no_zde: "raises_os_only act \<Longrightarrow> fst (act v) \<noteq> Inl ZeroDivisionError"
  unfolding raises_os_only_def by (metis Inl_Inr_False exn.distinct(3) sum.inject(1))

lemma run_ops_failing_op:
  assumes "total r \<noteq> 0"
    and "\<forall>op\<in>set ops. raises_os_only (snd op)"
    and "\<exists>op\<in>set ops. \<forall>v. \<exists>msg. fst (snd op v) = Inl (OSError msg)"
  shows "\<exists>msg. fst (run_ops False ops (w, r)) = Inl (OSError msg)"
  using assms
proof (induction ops arbitrary: w r)
  case Nil
  then show ?case by simp
next
  case (Cons op ops)
  obtain x w1 where act: "snd op w = (x, w1)" by (cases "snd op w")
  have body: "step_then False (fst op) (snd op) (w, r) = (x, (w1, stepped (fst op) r))"
    using Cons.prems(1) act by (simp add: step_then_run)
  from Cons.prems(2) have "raises_os_only (snd op)" by simp
  then consider "x = Inr ()" | msg where "x = Inl (OSError msg)"
    using act unfolding raises_os_only_def by (metis fst_conv)
  then show ?case
  proof cases
    case 1
    then have "\<not> (\<forall>v. \<exists>msg. fst (snd op v) = Inl (OSError msg))"
      using act by (metis Inl_Inr_False fst_conv)
    with Cons.prems(3) have ex: "\<exists>op\<in>set ops. \<forall>v. \<exists>msg. fst (snd op v) = Inl (OSError msg)"
      by auto
    have "\<exists>msg. fst (run_ops False ops (w1, stepped (fst op) r)) = Inl (OSError msg)"
      using Cons.IH[of "stepped (fst op) r" w1] Cons.prems(1,2) ex by simp
    then show ?thesis
      using 1 body by (simp add: run_ops_def)
  next
    case 2
    then show ?thesis
      using body by (simp add: run_ops_def)
  qed
qed

lemma run_all_failing_op:
  assumes "total r \<noteq> 0"
    and "\<forall>op\<in>set ops. raises_os_only (snd op)"
    and "\<exists>op\<in>set ops. \<forall>v. \<exists>msg. fst (snd op v) = Inl (OSError msg)"
  shows "\<exists>msg. fst (run_all False ops (w, r)) = Inl (OSError msg)"
proof -
  from run_ops_failing_op[OF assms] obtain msg where
    "fst (run_ops False ops (w, r)) = Inl (OSError msg)" by blast
  then show ?thesis
    by (cases "run_ops False ops (w, r)") (simp add: run_all_def p_bind_def)
qed

text \<open>
  C3. Under any operating system \<open>create_folder\<close>, \<open>remove_file\<close> and
  \<open>remove_folder\<close> return: whatever their system call raises is caught (and printed).
  \<open>copy_file\<close> is different: when \<^verbatim>\<open>shutil.copy2\<close> fails, \<open>copy_file\<close> raises that
  failure. It also ends the reconciliation: a \<open>sync\<close> or \<open>sync_bidirectional\<close> that is
  not dry and has a file to copy whose copy fails ends with an \<^verbatim>\<open>OSError\<close>.
\<close>

theorem failure_policy:
  "fst (create_folder api p w) = Inr () \<and>
   fst (remove_file api p w) = Inr () \<and>
   fst (remove_folder api p w) = Inr () \<and>
   (\<forall>msg f'. shutil_copy2 api src dst
                (fs (snd (create_folder api (os_path_dirname api dst) w))) = (Some msg, f')
      \<longrightarrow> fst (copy_file api src dst w) = Inl (OSError msg)) \<and>
   (set_iter_ok (set_iter api) \<and>
    take_snapshot api (fs v) (normalize api [src0]) (-1) = Inr S \<and>
    take_snapshot api (fs v) (normalize api [dst0]) (-1) = Inr D \<and>
    diff (set_iter api) S D = Inr d \<and>
    k \<in> set (left_only d) \<and> dict_get S k = Some e \<and> isfile e \<and>
    (\<forall>f. fst (shutil_copy2 api (path e)
                 (normalize api [normalize api [dst0], relative_path e]) f) \<noteq> None)
      \<longrightarrow> (\<exists>msg. fst (sync api src0 dst0 replace_changed delete_files False reporter v)
                    = Inl (OSError msg)) \<and>
          (\<exists>msg. fst (sync_bidirectional api src0 dst0 replace_changed False reporter v)
                    = Inl (OSError msg)))"
proof -
  have copy: "\<forall>msg f'. shutil_copy2 api src dst
                (fs (snd (create_folder api (os_path_dirname api dst) w))) = (Some msg, f')
      \<longrightarrow> fst (copy_file api src dst w) = Inl (OSError msg)"
    by (simp add: copy_file_result)
  have abort: "(\<exists>msg. fst (sync api src0 dst0 replace_changed delete_files False reporter v)
                    = Inl (OSError msg)) \<and>
          (\<exists>msg. fst (sync_bidirectional api src0 dst0 replace_changed False reporter v)
                    = Inl (OSError msg))"
    if ok: "set_iter_ok (set_iter api)"
      and S: "take_snapshot api (fs v) (normalize api [src0]) (-1) = Inr S"
      and D: "take_snapshot api (fs v) (normalize api [dst0]) (-1) = Inr D"
      and d: "diff (set_iter api) S D = Inr d"
      and k: "k \<in> set (left_only d)" and e: "dict_get S k = Some e" and isf: "isfile e"
      and fails: "\<forall>f. fst (shutil_copy2 api (path e)
                 (normalize api [normalize api [dst0], relative_path e]) f) \<noteq> None"
  proof -
    let ?op = "copy_op api S (normalize api [dst0]) ''R-> Copy '' k"
    let ?r0 = "reporter_or_default reporter"
    have act: "snd ?op = copy_file api (path e) (normalize api [normalize api [dst0], relative_path e])"
      using e isf by (simp add: copy_op_def)
    have always: "\<forall>u. \<exists>msg. fst (snd ?op u) = Inl (OSError msg)"
      unfolding act copy_file_result using fails by (auto split: option.splits)
    let ?ops = "sync_ops api S D d (normalize api [dst0]) replace_changed delete_files"
    let ?bops = "bidir_ops api S D d (normalize api [src0]) (normalize api [dst0]) replace_changed"
    have in1: "?op \<in> set ?ops" and in2: "?op \<in> set ?bops"
      using k by (simp_all add: sync_ops_def bidir_ops_def)
    then have n1: "int (length ?ops) \<noteq> 0" and n2: "int (length ?bops) \<noteq> 0"
      by auto
    have 1: "\<exists>msg. fst (run_all False ?ops (u, r)) = Inl (OSError msg)" if "total r \<noteq> 0" for u r
      by (rule run_all_failing_op[OF that]) (use in1 always sync_ops_raise_os_only in blast)+
    have 2: "\<exists>msg. fst (run_all False ?bops (u, r)) = Inl (OSError msg)" if "total r \<noteq> 0" for u r
      by (rule run_all_failing_op[OF that]) (use in2 always bidir_ops_raise_os_only in blast)+
    show ?thesis
      unfolding sync_unfold[OF ok S D d refl refl refl refl] bidir_unfold[OF ok S D d refl refl refl refl]
      using n1 n2 1 2 by (simp add: announced_def)
  qed
  show ?thesis
    using copy abort
    by (simp only: create_folder_returns remove_file_returns remove_folder_returns) blast
qed

lemma mock1_takes:
  "take_snapshot mock1 (fs w0) (normalize mock1 [''s'']) (-1) = Inr S1"
  "take_snapshot mock1 (fs w0) (normalize mock1 [''d'']) (-1) = Inr D1"
  by (code_simp)+

lemma mock1_diff:
  "diff (set_iter mock1) S1 D1 =
     Inr \<lparr>left_only = [''a.txt'', ''b.txt''], right_only = [], changed = [], common = [''.'']\<rparr>"
  by code_simp

theorem failure_policy_witness:
  "shutil_copy2 mock1 ''s/a.txt'' ''d/a.txt''
      (fs (snd (create_folder mock1 (os_path_dirname mock1 ''d/a.txt'') w0)))
     = (Some ''Permission denied'', []) \<and>
   fst (create_folder mock1 ''d/new'' w0) = Inr () \<and>
   fst (remove_file mock1 ''d/new'' w0) = Inr () \<and>
   fst (remove_folder mock1 ''d/new'' w0) = Inr () \<and>
   fst (copy_file mock1 ''s/a.txt'' ''d/a.txt'' w0) = Inl (OSError ''Permission denied'') \<and>
   (\<exists>msg. fst (sync mock1 ''s'' ''d'' True True False None w0) = Inl (OSError msg)) \<and>
   (\<exists>msg. fst (sync_bidirectional mock1 ''s'' ''d'' True False None w0) = Inl (OSError msg))"
proof -
  have c: "shutil_copy2 mock1 ''s/a.txt'' ''d/a.txt''
      (fs (snd (create_folder mock1 (os_path_dirname mock1 ''d/a.txt'') w0)))
     = (Some ''Permission denied'', [])"
    by code_simp
  have ok: "set_iter_ok (set_iter mock1)"
    by (simp add: mock1_def mock_api_def set_iter_ok_def)
  have k: "''a.txt'' \<in> set (left_only \<lparr>left_only = [''a.txt'', ''b.txt''], right_only = [],
             changed = [], common = [''.'']\<rparr>)"
    by simp
  have e: "dict_get S1 ''a.txt'' =
      Some \<lparr>path = ''s/a.txt'', relative_path = ''a.txt'', isfile = True, mtime = 100\<rparr>"
    by (simp add: S1_def dict_get_def)
  have fails: "\<forall>f. fst (shutil_copy2 mock1 ''s/a.txt''
                 (normalize mock1 [normalize mock1 [''d''], ''a.txt'']) f) \<noteq> None"
    by (simp add: mock1_def mock_api_def normalize_def join_slash_def replace_backslash_def)
  show ?thesis
    using failure_policy[of mock1 "''d/new''" w0 "''s/a.txt''" "''d/a.txt''" w0 "''s''" S1 "''d''" D1
        "\<lparr>left_only = [''a.txt'', ''b.txt''], right_only = [], changed = [], common = [''.'']\<rparr>"
        "''a.txt''" "\<lparr>path = ''s/a.txt'', relative_path = ''a.txt'', isfile = True, mtime = 100\<rparr>"
        True True None]
      c ok mock1_takes mock1_diff k e fails
    by simp
qed

section \<open>The calls of a reconciliation\<close>

lemma diff_is_diff_lists: "set_iter_ok it \<Longrightarrow> diff it A B = Inr (diff_lists it A B)"
  by (simp add: diff_cls diff_lists_def)

lemma take_files_raises:
  "take_files api f base_root root_dir files snap = Inl e \<Longrightarrow> \<exists>msg. e = OSError msg"
  by (induction files arbitrary: snap) (auto simp: Let_def split: sum.splits)

lemma take_walk_raises:
  "take_walk api f base_root base_depth depth t snap = Inl e \<Longrightarrow> \<exists>msg. e = OSError msg"
  "take_walks api f base_root base_depth depth ts snap = Inl e \<Longrightarrow> \<exists>msg. e = OSError msg"
proof (induction api f base_root base_depth depth t snap and api f base_root base_depth depth ts snap
    rule: take_walk_take_walks.induct)
  case (1 api f base_root base_depth depth root_dir files subs snap)
  then show ?case
    by (auto simp: Let_def split: sum.splits if_splits dest: take_files_raises)
next
  case (2 api f base_root base_depth depth snap)
  then show ?case by simp
next
  case (3 api f base_root base_depth depth t ts snap)
  then show ?case
    by (auto split: sum.splits)
qed

lemma take_snapshot_raises:
  "take_snapshot api f p depth = Inl e \<Longrightarrow> \<exists>msg. e = OSError msg"
  by (auto simp: take_snapshot_def Let_def split: if_splits sum.splits dest: take_walk_raises(2))

lemma sync_as_run_form:
  assumes ok: "set_iter_ok (set_iter api)"
    and S: "take_snapshot api (fs w) (normalize api [src0]) (-1) = Inr S"
    and D: "take_snapshot api (fs w) (normalize api [dst0]) (-1) = Inr D"
  shows "sync api src0 dst0 replace_changed delete_files dry reporter w =
     run_form dry
       (sync_ops api S D (diff_lists (set_iter api) S D) (normalize api [dst0]) replace_changed delete_files)
       (normalize api [src0] @ '' --> '' @ normalize api [dst0])
       (w, reporter_or_default reporter)"
  unfolding sync_unfold[OF ok S D diff_is_diff_lists[OF ok] refl refl refl refl] run_form_def
  by simp

lemma bidir_as_run_form:
  assumes ok: "set_iter_ok (set_iter api)"
    and S: "take_snapshot api (fs w) (normalize api [src0]) (-1) = Inr S"
    and D: "take_snapshot api (fs w) (normalize api [dst0]) (-1) = Inr D"
  shows "sync_bidirectional api src0 dst0 replace_changed dry reporter w =
     run_form dry
       (bidir_ops api S D (diff_lists (set_iter api) S D) (normalize api [src0]) (normalize api [dst0])
          replace_changed)
       (normalize api [src0] @ '' <-> '' @ normalize api [dst0])
       (w, reporter_or_default reporter)"
  unfolding bidir_unfold[OF ok S D diff_is_diff_lists[OF ok] refl refl refl refl] run_form_def
  by simp

lemma run_form_outcome:
  assumes os: "\<forall>op\<in>set ops. raises_os_only (snd op)"
    and run: "run_form dry ops m (w, r0) = (res, (w', r'))"
  shows "res \<noteq> Inl ZeroDivisionError"
    and "total r' = int (length ops)"
    and "\<exists>cs. calls r' = calls r0 @ SetTotal (int (length ops)) # cs \<and>
            ((\<exists>a msg. Step a msg \<in> set cs) \<longrightarrow> 0 < int (length ops))"
    and "dry \<longrightarrow> res = Inr () \<and> w' = w"
    and "res = Inr () \<longrightarrow>
           r' = (if int (length ops) \<noteq> 0
                   then finished (map fst ops)
                          (announced (int (length ops))
                             [Start m, Info (''Syncing '' @ str_int (int (length ops)) @ '' files.'')] r0)
                 else announced (int (length ops)) [Start m, Done ''Done! Nothing to sync.''] r0)"
proof -
  let ?n = "int (length ops)"
  let ?r1 = "announced ?n [Start m, Info (''Syncing '' @ str_int ?n @ '' files.'')] r0"
  show "res \<noteq> Inl ZeroDivisionError"
  proof (cases "?n \<noteq> 0")
    case True
    then have run': "run_all dry ops (w, ?r1) = (res, (w', r'))" and t: "total ?r1 \<noteq> 0"
      using run by (simp_all add: run_form_def announced_def)
    show ?thesis
      using run_all_cases(3)[OF t run'] os raises_os_only_no_zde by blast
  next
    case False
    then show ?thesis using run by (auto simp: run_form_def)
  qed
  show "total r' = ?n"
  proof (cases "?n \<noteq> 0")
    case True
    then have run': "run_all dry ops (w, ?r1) = (res, (w', r'))" and t: "total ?r1 \<noteq> 0"
      using run by (simp_all add: run_form_def announced_def)
    show ?thesis
      using run_all_cases(4)[OF t run'] by (simp add: announced_def)
  next
    case False
    then show ?thesis using run by (auto simp: run_form_def announced_def)
  qed
  show "\<exists>cs. calls r' = calls r0 @ SetTotal ?n # cs \<and> ((\<exists>a msg. Step a msg \<in> set cs) \<longrightarrow> 0 < ?n)"
  proof (cases "?n \<noteq> 0")
    case True
    then have run': "run_all dry ops (w, ?r1) = (res, (w', r'))" and t: "total ?r1 \<noteq> 0"
      using run by (simp_all add: run_form_def announced_def)
    from run_all_cases(5)[OF t run'] obtain cs where "calls r' = calls ?r1 @ cs" by blast
    then have "calls r' = calls r0 @ SetTotal ?n #
        ([Start m, Info (''Syncing '' @ str_int ?n @ '' files.'')] @ cs)"
      by (simp add: announced_def)
    moreover have "0 < ?n" using True by simp
    ultimately show ?thesis by blast
  next
    case False
    then have "calls r' = calls r0 @ SetTotal ?n # [Start m, Done ''Done! Nothing to sync.'']"
      using run by (auto simp: run_form_def announced_def)
    moreover have "\<not> (\<exists>a msg. Step a msg \<in> set [Start m, Done ''Done! Nothing to sync.''])"
      by simp
    ultimately show ?thesis by blast
  qed
  show "dry \<longrightarrow> res = Inr () \<and> w' = w"
  proof (cases "?n \<noteq> 0")
    case True
    then have run': "run_all dry ops (w, ?r1) = (res, (w', r'))" and t: "total ?r1 \<noteq> 0"
      using run by (simp_all add: run_form_def announced_def)
    show ?thesis
      using run_all_cases(2)[OF t run'] by simp
  next
    case False
    then show ?thesis using run by (auto simp: run_form_def)
  qed
  show "res = Inr () \<longrightarrow>
           r' = (if ?n \<noteq> 0 then finished (map fst ops) ?r1
                 else announced ?n [Start m, Done ''Done! Nothing to sync.''] r0)"
  proof (cases "?n \<noteq> 0")
    case True
    then have run': "run_all dry ops (w, ?r1) = (res, (w', r'))" and t: "total ?r1 \<noteq> 0"
      using run by (simp_all add: run_form_def announced_def)
    show ?thesis
      using run_all_cases(1)[OF t run'] True by simp
  next
    case False
    then show ?thesis using run by (auto simp: run_form_def)
  qed
qed

lemma sync_outcome:
  assumes ok: "set_iter_ok (set_iter api)"
    and run: "sync api src0 dst0 replace_changed delete_files dry reporter w = (res, (w', r'))"
  shows "res \<noteq> Inl ZeroDivisionError"
    and "calls r' = calls (reporter_or_default reporter) \<or>
         (\<exists>cs. calls r' = calls (reporter_or_default reporter) @ SetTotal (total r') # cs \<and>
            ((\<exists>a msg. Step a msg \<in> set cs) \<longrightarrow> 0 < total r'))"
    and "dry \<longrightarrow> w' = w"
proof -
  let ?goal = "res \<noteq> Inl ZeroDivisionError \<and>
     (calls r' = calls (reporter_or_default reporter) \<or>
         (\<exists>cs. calls r' = calls (reporter_or_default reporter) @ SetTotal (total r') # cs \<and>
            ((\<exists>a msg. Step a msg \<in> set cs) \<longrightarrow> 0 < total r'))) \<and>
     (dry \<longrightarrow> w' = w)"
  have ?goal
  proof (cases "take_snapshot api (fs w) (normalize api [src0]) (-1)")
    case (Inl e)
    from take_snapshot_raises[OF Inl] sync_take_src_fails[OF Inl] run show ?thesis by auto
  next
    case S: (Inr S)
    show ?thesis
    proof (cases "take_snapshot api (fs w) (normalize api [dst0]) (-1)")
      case (Inl e)
      from take_snapshot_raises[OF Inl] sync_take_dst_fails[OF S Inl] run show ?thesis by auto
    next
      case D: (Inr D)
      let ?ops = "sync_ops api S D (diff_lists (set_iter api) S D) (normalize api [dst0])
                    replace_changed delete_files"
      have os: "\<forall>op\<in>set ?ops. raises_os_only (snd op)"
        using sync_ops_raise_os_only by blast
      note out = run_form_outcome[OF os run[unfolded sync_as_run_form[OF ok S D]]]
      show ?thesis
        using out(1) out(3) out(4) unfolding out(2) by blast
    qed
  qed
  then show "res \<noteq> Inl ZeroDivisionError"
    and "calls r' = calls (reporter_or_default reporter) \<or>
         (\<exists>cs. calls r' = calls (reporter_or_default reporter) @ SetTotal (total r') # cs \<and>
            ((\<exists>a msg. Step a msg \<in> set cs) \<longrightarrow> 0 < total r'))"
    and "dry \<longrightarrow> w' = w"
    by blast+
qed

lemma bidir_outcome:
  assumes ok: "set_iter_ok (set_iter api)"
    and run: "sync_bidirectional api src0 dst0 replace_changed dry reporter w = (res, (w', r'))"
  shows "res \<noteq> Inl ZeroDivisionError"
    and "calls r' = calls (reporter_or_default reporter) \<or>
         (\<exists>cs. calls r' = calls (reporter_or_default reporter) @ SetTotal (total r') # cs \<and>
            ((\<exists>a msg. Step a msg \<in> set cs) \<longrightarrow> 0 < total r'))"
    and "dry \<longrightarrow> w' = w"
proof -
  let ?goal = "res \<noteq> Inl ZeroDivisionError \<and>
     (calls r' = calls (reporter_or_default reporter) \<or>
         (\<exists>cs. calls r' = calls (reporter_or_default reporter) @ SetTotal (total r') # cs \<and>
            ((\<exists>a msg. Step a msg \<in> set cs) \<longrightarrow> 0 < total r'))) \<and>
     (dry \<longrightarrow> w' = w)"
  have ?goal
  proof (cases "take_snapshot api (fs w) (normalize api [src0]) (-1)")
    case (Inl e)
    from take_snapshot_raises[OF Inl] bidir_take_src_fails[OF Inl] run show ?thesis by auto
  next
    case S: (Inr S)
    show ?thesis
    proof (cases "take_snapshot api (fs w) (normalize api [dst0]) (-1)")
      case (Inl e)
      from take_snapshot_raises[OF Inl] bidir_take_dst_fails[OF S Inl] run show ?thesis by auto
    next
      case D: (Inr D)
      let ?ops = "bidir_ops api S D (diff_lists (set_iter api) S D) (normalize api [src0])
                    (normalize api [dst0]) replace_changed"
      have os: "\<forall>op\<in>set ?ops. raises_os_only (snd op)"
        using bidir_ops_raise_os_only by blast
      note out = run_form_outcome[OF os run[unfolded bidir_as_run_form[OF ok S D]]]
      show ?thesis
        using out(1) out(3) out(4) unfolding out(2) by blast
    qed
  qed
  then show "res \<noteq> Inl ZeroDivisionError"
    and "calls r' = calls (reporter_or_default reporter) \<or>
         (\<exists>cs. calls r' = calls (reporter_or_default reporter) @ SetTotal (total r') # cs \<and>
            ((\<exists>a msg. Step a msg \<in> set cs) \<longrightarrow> 0 < total r'))"
    and "dry \<longrightarrow> w' = w"
    by blast+
qed

text \<open>
  C9. Neither \<open>sync\<close> nor \<open>sync_bidirectional\<close> ever ends with the
  \<^verbatim>\<open>ZeroDivisionError\<close> of \<open>Reporter_step\<close>. Whenever the calls that a run has made
  contain a step, they start with the \<^verbatim>\<open>set_total\<close> of the run, whose value is still
  the total of the reporter and is strictly positive.
\<close>

theorem step_total_positive:
  assumes "set_iter_ok (set_iter api)"
  shows "fst (sync api src0 dst0 replace_changed delete_files dry reporter w) \<noteq> Inl ZeroDivisionError \<and>
     fst (sync_bidirectional api src0 dst0 replace_changed dry reporter w) \<noteq> Inl ZeroDivisionError \<and>
     (\<forall>res w' r' a msg.
        (sync api src0 dst0 replace_changed delete_files dry reporter w = (res, (w', r')) \<or>
         sync_bidirectional api src0 dst0 replace_changed dry reporter w = (res, (w', r'))) \<longrightarrow>
        Step a msg \<in> set (drop (length (calls (reporter_or_default reporter))) (calls r')) \<longrightarrow>
        0 < total r' \<and>
        (\<exists>cs. calls r' = calls (reporter_or_default reporter) @ SetTotal (total r') # cs))"
proof -
  have 1: "fst (sync api src0 dst0 replace_changed delete_files dry reporter w) \<noteq> Inl ZeroDivisionError"
    using sync_outcome(1)[OF assms] by (metis prod.collapse)
  have 2: "fst (sync_bidirectional api src0 dst0 replace_changed dry reporter w) \<noteq> Inl ZeroDivisionError"
    using bidir_outcome(1)[OF assms] by (metis prod.collapse)
  have 3: "0 < total r' \<and> (\<exists>cs. calls r' = calls (reporter_or_default reporter) @ SetTotal (total r') # cs)"
    if shape: "calls r' = calls (reporter_or_default reporter) \<or>
         (\<exists>cs. calls r' = calls (reporter_or_default reporter) @ SetTotal (total r') # cs \<and>
            ((\<exists>a msg. Step a msg \<in> set cs) \<longrightarrow> 0 < total r'))"
      and step: "Step a msg \<in> set (drop (length (calls (reporter_or_default reporter))) (calls r'))"
    for r' a msg
  proof -
    from shape step obtain cs where
      cs: "calls r' = calls (reporter_or_default reporter) @ SetTotal (total r') # cs"
      and pos: "(\<exists>a msg. Step a msg \<in> set cs) \<longrightarrow> 0 < total r'"
      by auto
    from step cs have "Step a msg \<in> set cs" by simp
    with pos cs show ?thesis by blast
  qed
  have 4: "0 < total r' \<and> (\<exists>cs. calls r' = calls (reporter_or_default reporter) @ SetTotal (total r') # cs)"
    if run: "sync api src0 dst0 replace_changed delete_files dry reporter w = (res, (w', r')) \<or>
         sync_bidirectional api src0 dst0 replace_changed dry reporter w = (res, (w', r'))"
      and step: "Step a msg \<in> set (drop (length (calls (reporter_or_default reporter))) (calls r'))"
    for res w' r' a msg
    using run
  proof
    assume "sync api src0 dst0 replace_changed delete_files dry reporter w = (res, (w', r'))"
    from 3[OF sync_outcome(2)[OF assms this] step] show ?thesis .
  next
    assume "sync_bidirectional api src0 dst0 replace_changed dry reporter w = (res, (w', r'))"
    from 3[OF bidir_outcome(2)[OF assms this] step] show ?thesis .
  qed
  have 5: "\<forall>res w' r' a msg.
        (sync api src0 dst0 replace_changed delete_files dry reporter w = (res, (w', r')) \<or>
         sync_bidirectional api src0 dst0 replace_changed dry reporter w = (res, (w', r'))) \<longrightarrow>
        Step a msg \<in> set (drop (length (calls (reporter_or_default reporter))) (calls r')) \<longrightarrow>
        0 < total r' \<and>
        (\<exists>cs. calls r' = calls (reporter_or_default reporter) @ SetTotal (total r') # cs)"
    by (intro allI impI) (rule 4)
  from 1 2 5 show ?thesis by (intro conjI)
qed

lemma step_amounts_append: "step_amounts (xs @ ys) = step_amounts xs @ step_amounts ys"
  by (induction xs rule: step_amounts.induct) simp_all

lemma set_total_values_append:
  "set_total_values (xs @ ys) = set_total_values xs @ set_total_values ys"
  by (induction xs rule: set_total_values.induct) simp_all

lemma step_amounts_steps: "step_amounts (map (Step 1) ms) = replicate (length ms) 1"
  by (induction ms) simp_all

lemma set_total_values_steps: "set_total_values (map (Step 1) ms) = []"
  by (induction ms) simp_all

lemma calls_finished:
  "calls (finished ms (announced n cs r0)) =
     calls r0 @ SetTotal n # cs @ map (Step 1) ms @ [Done ''Done!'']"
  by (simp add: finished_def calls_step_all announced_def)

text \<open>
  C7. When the two snapshots and their diff give an operation count of zero, \<open>sync\<close>
  returns with the world as it was and a reporter that has received \<^verbatim>\<open>set_total(0)\<close>,
  \<^verbatim>\<open>start\<close> and \<^verbatim>\<open>done('Done! Nothing to sync.')\<close> and nothing else: no loop has run.
  The same holds for \<open>sync_bidirectional\<close> with its own count.
\<close>

theorem nothing_to_sync:
  assumes "set_iter_ok (set_iter api)"
    and "take_snapshot api (fs w) (normalize api [src0]) (-1) = Inr S"
    and "take_snapshot api (fs w) (normalize api [dst0]) (-1) = Inr D"
    and "diff (set_iter api) S D = Inr d"
  shows "(int (length (left_only d))
            + (if delete_files then int (length (right_only d)) else 0)
            + (if replace_changed then int (length (changed d)) else 0) = 0 \<longrightarrow>
          sync api src0 dst0 replace_changed delete_files dry reporter w =
            (Inr (), (w, (reporter_or_default reporter)
               \<lparr>total := 0,
                calls := calls (reporter_or_default reporter) @
                  [SetTotal 0, Start (normalize api [src0] @ '' --> '' @ normalize api [dst0]),
                   Done ''Done! Nothing to sync.'']\<rparr>))) \<and>
         (int (length (left_only d)) + int (length (right_only d))
            + (if replace_changed then int (length (changed d)) else 0) = 0 \<longrightarrow>
          sync_bidirectional api src0 dst0 replace_changed dry reporter w =
            (Inr (), (w, (reporter_or_default reporter)
               \<lparr>total := 0,
                calls := calls (reporter_or_default reporter) @
                  [SetTotal 0, Start (normalize api [src0] @ '' <-> '' @ normalize api [dst0]),
                   Done ''Done! Nothing to sync.'']\<rparr>)))"
  unfolding sync_unfold[OF assms refl refl refl refl] bidir_unfold[OF assms refl refl refl refl]
    length_sync_ops length_bidir_ops
  by (simp add: announced_def)

text \<open>
  C5, as the code has it. Take a run of \<open>sync\<close> whose operation count \<open>n\<close> is not
  zero. If the run is dry it returns. And whenever the run returns, dry or not, the
  calls it has made hold one \<^verbatim>\<open>set_total\<close>, of \<open>n\<close>, and the amounts of their steps
  add up to \<open>n\<close>. (A run that a failed copy ends has reported fewer steps.)
\<close>

theorem sync_steps_total:
  assumes ok: "set_iter_ok (set_iter api)"
    and S: "take_snapshot api (fs w) (normalize api [src0]) (-1) = Inr S"
    and D: "take_snapshot api (fs w) (normalize api [dst0]) (-1) = Inr D"
    and d: "diff (set_iter api) S D = Inr d"
    and n: "n = int (length (left_only d))
            + (if delete_files then int (length (right_only d)) else 0)
            + (if replace_changed then int (length (changed d)) else 0)"
    and nz: "n \<noteq> 0"
    and run: "sync api src0 dst0 replace_changed delete_files dry reporter w = (res, (w', r'))"
  shows "(dry \<longrightarrow> res = Inr ()) \<and>
     (res = Inr () \<longrightarrow>
        (\<exists>cs. calls r' = calls (reporter_or_default reporter) @ cs \<and>
           set_total_values cs = [n] \<and> sum_list (step_amounts cs) = n))"
proof -
  let ?ops = "sync_ops api S D d (normalize api [dst0]) replace_changed delete_files"
  let ?m = "normalize api [src0] @ '' --> '' @ normalize api [dst0]"
  let ?r1 = "announced n [Start ?m, Info (''Syncing '' @ str_int n @ '' files.'')]
               (reporter_or_default reporter)"
  have len: "int (length ?ops) = n"
    unfolding n by (rule length_sync_ops)
  have run': "run_all dry ?ops (w, ?r1) = (res, (w', r'))"
    using run nz unfolding sync_unfold[OF ok S D d refl refl refl refl] len by simp
  have t: "total ?r1 \<noteq> 0"
    using nz by (simp add: announced_def)
  note out = run_all_cases[OF t run']
  have "\<exists>cs. calls r' = calls (reporter_or_default reporter) @ cs \<and>
           set_total_values cs = [n] \<and> sum_list (step_amounts cs) = n" if "res = Inr ()"
  proof -
    from out(1) that have "r' = finished (map fst ?ops) ?r1" by simp
    then have "calls r' = calls (reporter_or_default reporter) @
        (SetTotal n # [Start ?m, Info (''Syncing '' @ str_int n @ '' files.'')]
           @ map (Step 1) (map fst ?ops) @ [Done ''Done!''])"
      by (simp add: calls_finished)
    moreover have "set_total_values (SetTotal n # [Start ?m, Info (''Syncing '' @ str_int n @ '' files.'')]
           @ map (Step 1) (map fst ?ops) @ [Done ''Done!'']) = [n]"
      by (simp add: set_total_values_append set_total_values_steps del: map_map)
    moreover have "sum_list (step_amounts (SetTotal n # [Start ?m, Info (''Syncing '' @ str_int n @ '' files.'')]
           @ map (Step 1) (map fst ?ops) @ [Done ''Done!''])) = n"
      using len by (simp add: step_amounts_append step_amounts_steps sum_list_replicate del: map_map)
    ultimately show ?thesis by blast
  qed
  with out(2) show ?thesis by blast
qed

text \<open>
  C6, as the code has it. Whenever the run with \<^verbatim>\<open>dry=False\<close> returns, the run with
  \<^verbatim>\<open>dry=True\<close> from the same world returns too, with the very same reporter (the
  same calls with the same messages in the same order) and with the world it started
  from. A dry run leaves the world as it was in every case, so a snapshot taken after
  it is the snapshot taken before it.
\<close>

theorem dry_run_neutral:
  assumes ok: "set_iter_ok (set_iter api)"
  shows "(\<forall>w' r'. sync api src0 dst0 replace_changed delete_files False reporter w = (Inr (), (w', r'))
            \<longrightarrow> sync api src0 dst0 replace_changed delete_files True reporter w = (Inr (), (w, r'))) \<and>
         (\<forall>w' r'. sync_bidirectional api src0 dst0 replace_changed False reporter w = (Inr (), (w', r'))
            \<longrightarrow> sync_bidirectional api src0 dst0 replace_changed True reporter w = (Inr (), (w, r'))) \<and>
         fst (snd (sync api src0 dst0 replace_changed delete_files True reporter w)) = w \<and>
         fst (snd (sync_bidirectional api src0 dst0 replace_changed True reporter w)) = w"
proof -
  have 1: "sync api src0 dst0 replace_changed delete_files True reporter w = (Inr (), (w, r'))"
    if real: "sync api src0 dst0 replace_changed delete_files False reporter w = (Inr (), (w', r'))"
    for w' r'
  proof -
    obtain S where S: "take_snapshot api (fs w) (normalize api [src0]) (-1) = Inr S"
      using real sync_take_src_fails[of api w src0 _ dst0 replace_changed delete_files False reporter]
      by (cases "take_snapshot api (fs w) (normalize api [src0]) (-1)") auto
    obtain D where D: "take_snapshot api (fs w) (normalize api [dst0]) (-1) = Inr D"
      using real sync_take_dst_fails[OF S, of dst0 _ replace_changed delete_files False reporter]
      by (cases "take_snapshot api (fs w) (normalize api [dst0]) (-1)") auto
    let ?ops = "sync_ops api S D (diff_lists (set_iter api) S D) (normalize api [dst0])
                  replace_changed delete_files"
    have os: "\<forall>op\<in>set ?ops. raises_os_only (snd op)"
      using sync_ops_raise_os_only by blast
    obtain res2 w2 r2 where
      dry: "sync api src0 dst0 replace_changed delete_files True reporter w = (res2, (w2, r2))"
      by (metis surj_pair)
    note a = run_form_outcome[OF os real[unfolded sync_as_run_form[OF ok S D]]]
    note b = run_form_outcome[OF os dry[unfolded sync_as_run_form[OF ok S D]]]
    from b(4) have "res2 = Inr ()" "w2 = w" by simp_all
    moreover from a(5) b(5) \<open>res2 = Inr ()\<close> have "r2 = r'" by simp
    ultimately show ?thesis using dry by simp
  qed
  have 2: "sync_bidirectional api src0 dst0 replace_changed True reporter w = (Inr (), (w, r'))"
    if real: "sync_bidirectional api src0 dst0 replace_changed False reporter w = (Inr (), (w', r'))"
    for w' r'
  proof -
    obtain S where S: "take_snapshot api (fs w) (normalize api [src0]) (-1) = Inr S"
      using real bidir_take_src_fails[of api w src0 _ dst0 replace_changed False reporter]
      by (cases "take_snapshot api (fs w) (normalize api [src0]) (-1)") auto
    obtain D where D: "take_snapshot api (fs w) (normalize api [dst0]) (-1) = Inr D"
      using real bidir_take_dst_fails[OF S, of dst0 _ replace_changed False reporter]
      by (cases "take_snapshot api (fs w) (normalize api [dst0]) (-1)") auto
    let ?ops = "bidir_ops api S D (diff_lists (set_iter api) S D) (normalize api [src0])
                  (normalize api [dst0]) replace_changed"
    have os: "\<forall>op\<in>set ?ops. raises_os_only (snd op)"
      using bidir_ops_raise_os_only by blast
    obtain res2 w2 r2 where
      dry: "sync_bidirectional api src0 dst0 replace_changed True reporter w = (res2, (w2, r2))"
      by (metis surj_pair)
    note a = run_form_outcome[OF os real[unfolded bidir_as_run_form[OF ok S D]]]
    note b = run_form_outcome[OF os dry[unfolded bidir_as_run_form[OF ok S D]]]
    from b(4) have "res2 = Inr ()" "w2 = w" by simp_all
    moreover from a(5) b(5) \<open>res2 = Inr ()\<close> have "r2 = r'" by simp
    ultimately show ?thesis using dry by simp
  qed
  have 3: "fst (snd (sync api src0 dst0 replace_changed delete_files True reporter w)) = w"
    using sync_outcome(3)[OF ok, of src0 dst0 replace_changed delete_files True reporter w]
    by (metis prod.collapse)
  have 4: "fst (snd (sync_bidirectional api src0 dst0 replace_changed True reporter w)) = w"
    using bidir_outcome(3)[OF ok, of src0 dst0 replace_changed True reporter w]
    by (metis prod.collapse)
  from 1 2 3 4 show ?thesis by (intro conjI allI impI)
qed


lemma mock_ok: "set_iter_ok (set_iter mock0)" "set_iter_ok (set_iter mock3)"
  by (simp_all add: mock0_def mock3_def mock_api_def set_iter_ok_def)

lemma mock3_takes:
  "take_snapshot mock3 (fs w0) (normalize mock3 [''s'']) (-1) = Inr S1"
  "take_snapshot mock3 (fs w0) (normalize mock3 [''d'']) (-1) = Inr D1"
  by (code_simp)+

lemma mock3_diff: "diff (set_iter mock3) S1 D1 = Inr d1"
  by code_simp

lemma mock3_sync: "sync mock3 ''s'' ''d'' False False False None w0 = (Inr (), (w3, r3))"
  by code_simp

lemma mock3_bidir: "sync_bidirectional mock3 ''s'' ''d'' False False None w0 = (Inr (), (w3, r3b))"
  by code_simp

lemma mock0_takes:
  "take_snapshot mock0 (fs w0) (normalize mock0 [''s'']) (-1) = Inr A0s"
  "take_snapshot mock0 (fs w0) (normalize mock0 [''d'']) (-1) = Inr B0s"
  "diff (set_iter mock0) A0s B0s = Inr empty_diff"
  by (code_simp)+

theorem nothing_to_sync_witness:
  "set_iter_ok (set_iter mock0) \<and>
   take_snapshot mock0 (fs w0) (normalize mock0 [''s'']) (-1) = Inr A0s \<and>
   take_snapshot mock0 (fs w0) (normalize mock0 [''d'']) (-1) = Inr B0s \<and>
   diff (set_iter mock0) A0s B0s = Inr empty_diff \<and>
   sync mock0 ''s'' ''d'' True True False None w0 =
     (Inr (), (w0, \<lparr>name = ''Sync'', total = 0, amount = 0, percent = Int_value 0,
        calls = [SetTotal 0, Start ''s --> d'', Done ''Done! Nothing to sync.'']\<rparr>)) \<and>
   sync_bidirectional mock0 ''s'' ''d'' True False None w0 =
     (Inr (), (w0, \<lparr>name = ''Sync'', total = 0, amount = 0, percent = Int_value 0,
        calls = [SetTotal 0, Start ''s <-> d'', Done ''Done! Nothing to sync.'']\<rparr>))"
proof -
  have m: "normalize mock0 [''s''] = ''s''" "normalize mock0 [''d''] = ''d''"
    by (code_simp)+
  show ?thesis
    using mock_ok(1) mock0_takes
      nothing_to_sync[OF mock_ok(1) mock0_takes, of True True False None]
    by (simp add: m empty_diff_def reporter_or_default_def new_Reporter_def)
qed

theorem sync_steps_total_witness:
  "set_iter_ok (set_iter mock3) \<and>
   take_snapshot mock3 (fs w0) (normalize mock3 [''s'']) (-1) = Inr S1 \<and>
   take_snapshot mock3 (fs w0) (normalize mock3 [''d'']) (-1) = Inr D1 \<and>
   diff (set_iter mock3) S1 D1 = Inr d1 \<and>
   (2::int) = int (length (left_only d1)) + 0 + 0 \<and> (2::int) \<noteq> 0 \<and>
   sync mock3 ''s'' ''d'' False False False None w0 = (Inr (), (w3, r3)) \<and>
   (\<exists>cs. calls r3 = calls (reporter_or_default None) @ cs \<and>
      set_total_values cs = [2] \<and> sum_list (step_amounts cs) = 2)"
proof -
  have n: "(2::int) = int (length (left_only d1))
            + (if False then int (length (right_only d1)) else 0)
            + (if False then int (length (changed d1)) else 0)"
    by (simp add: d1_def)
  have nz: "(2::int) \<noteq> 0" by simp
  show ?thesis
    using mock_ok(2) mock3_takes mock3_diff n nz mock3_sync
      sync_steps_total[OF mock_ok(2) mock3_takes mock3_diff n nz mock3_sync]
    by simp
qed

theorem sync_steps_total_counterexample:
  "sync mock1 ''s'' ''d'' False False False None w0 =
     (Inl (OSError ''Permission denied''),
      (w0, \<lparr>name = ''Sync'', total = 2, amount = 1, percent = Ratio_times_100 1 2,
         calls = [SetTotal 2, Start ''s --> d'', Info ''Syncing 2 files.'',
                  Step 1 ''R-> Copy a.txt'']\<rparr>)) \<and>
   sum_list (step_amounts [SetTotal 2, Start ''s --> d'', Info ''Syncing 2 files.'',
                  Step 1 ''R-> Copy a.txt'']) = 1"
  by code_simp

theorem dry_run_neutral_witness:
  "set_iter_ok (set_iter mock3) \<and>
   sync mock3 ''s'' ''d'' False False False None w0 = (Inr (), (w3, r3)) \<and>
   sync mock3 ''s'' ''d'' False False True None w0 = (Inr (), (w0, r3)) \<and>
   sync_bidirectional mock3 ''s'' ''d'' False False None w0 = (Inr (), (w3, r3b)) \<and>
   sync_bidirectional mock3 ''s'' ''d'' False True None w0 = (Inr (), (w0, r3b))"
  using mock_ok(2) mock3_sync mock3_bidir
    dry_run_neutral[OF mock_ok(2), of "''s''" "''d''" False False None w0]
  by simp

theorem dry_run_neutral_counterexample:
  "sync_bidirectional mock1 ''s'' ''d'' False False None w0 =
     (Inl (OSError ''Permission denied''),
      (w0, \<lparr>name = ''Sync'', total = 2, amount = 1, percent = Ratio_times_100 1 2,
         calls = [SetTotal 2, Start ''s <-> d'', Info ''Syncing 2 files.'',
                  Step 1 ''R-> Copy a.txt'']\<rparr>)) \<and>
   sync_bidirectional mock1 ''s'' ''d'' False True None w0 =
     (Inr (),
      (w0, \<lparr>name = ''Sync'', total = 2, amount = 2, percent = Ratio_times_100 2 2,
         calls = [SetTotal 2, Start ''s <-> d'', Info ''Syncing 2 files.'',
                  Step 1 ''R-> Copy a.txt'', Step 1 ''R-> Copy b.txt'', Done ''Done!'']\<rparr>))"
  by code_simp

theorem step_total_positive_witness:
  "set_iter_ok (set_iter mock3) \<and>
   sync mock3 ''s'' ''d'' False False False None w0 = (Inr (), (w3, r3)) \<and>
   Step 1 ''R-> Copy a.txt'' \<in> set (drop (length (calls (reporter_or_default None))) (calls r3)) \<and>
   fst (sync mock3 ''s'' ''d'' False False False None w0) \<noteq> Inl ZeroDivisionError \<and>
   fst (sync_bidirectional mock3 ''s'' ''d'' False False None w0) \<noteq> Inl ZeroDivisionError \<and>
   0 < total r3 \<and>
   (\<exists>cs. calls r3 = calls (reporter_or_default None) @ SetTotal (total r3) # cs)"
proof -
  have s: "Step 1 ''R-> Copy a.txt'' \<in> set (drop (length (calls (reporter_or_default None))) (calls r3))"
    by (simp add: reporter_or_default_def new_Reporter_def r3_def)
  show ?thesis
    using mock_ok(2) mock3_sync s
      step_total_positive[OF mock_ok(2), of "''s''" "''d''" False False False None w0]
    by blast
qed



end
